theory Spec2Isabelle
  imports Main "HOL-Library.AList" "HOL-Library.Multiset" "HOL-Library.Sublist"
begin

section \<open>Shared types\<close>

text \<open>
  The exceptions the three modules raise, by their Python class. The specification names
  them by role: \<open>TypeError\<close> and the \<open>ValueError\<close> of \<open>derive\<close> are its
  \<open>BadTopicSpec\<close>, the \<open>ValueError\<close> of the partitions setter is \<open>ZeroPartitions\<close>,
  the \<open>RuntimeError\<close> of \<open>TableManager.add\<close> is \<open>AddTooLate\<close> and its
  \<open>ValueError\<close> is \<open>DuplicateTable\<close>.
\<close>

datatype error = TypeError | ValueError | RuntimeError | AssertionError | KeyError | IndexError

text \<open>A topic-partition: the named tuple \<open>TP(topic, partition)\<close>.\<close>

datatype TP = TP (tp_topic: string) (tp_partition: int)

section \<open>Topic (faust/topics.py)\<close>

text \<open>The two settings of the application that \<open>Topic\<close> reads.\<close>

record app =
  default_partitions :: int
  replication_factor :: int

text \<open>
  The \<open>pattern\<close> argument is a \<open>str\<close> or an already compiled \<open>Pattern\<close>. A compiled
  pattern is kept as its source text; \<open>re.compile\<close> is taken to accept the text.
\<close>

datatype pattern_arg = PatternStr string | PatternCompiled string

fun re_compile :: "pattern_arg \<Rightarrow> string" where
  "re_compile (PatternStr s) = s"
| "re_compile (PatternCompiled s) = s"

text \<open>
  Python truth values: \<open>None\<close> and the empty string or list are false; a compiled
  pattern object is always true.
\<close>

fun truthy_pattern :: "pattern_arg option \<Rightarrow> bool" where
  "truthy_pattern None = False"
| "truthy_pattern (Some (PatternStr s)) = (s \<noteq> [])"
| "truthy_pattern (Some (PatternCompiled s)) = True"

fun truthy_topics :: "string list option \<Rightarrow> bool" where
  "truthy_topics None = False"
| "truthy_topics (Some ts) = (ts \<noteq> [])"

fun truthy_str :: "string \<Rightarrow> bool" where
  "truthy_str s = (s \<noteq> [])"

text \<open>
  A constructed \<open>Topic\<close>. \<open>pattern\<close>, \<open>partitions\<close> and \<open>replicas\<close> are the values
  behind the properties (\<open>_pattern\<close>, \<open>_partitions\<close>, \<open>_replicas\<close>). Key and value models
  and the retention are only stored and copied, so they are kept as opaque values.
\<close>

record topic =
  topic_app :: app
  topics :: "string list option"
  pattern :: "string option"
  key_type :: "string option"
  value_type :: "string option"
  is_iterator :: bool
  partitions :: int
  retention :: "int option"
  compacting :: "bool option"
  deleting :: "bool option"
  replicas :: int
  config :: "(string \<times> string) list"
  declared :: bool

text \<open>The keyword arguments of \<open>Topic.__init__\<close>, with \<open>init_defaults\<close> their defaults.\<close>

record topic_kwargs =
  kw_topics :: "string list option"
  kw_pattern :: "pattern_arg option"
  kw_key_type :: "string option"
  kw_value_type :: "string option"
  kw_is_iterator :: bool
  kw_partitions :: "int option"
  kw_retention :: "int option"
  kw_compacting :: "bool option"
  kw_deleting :: "bool option"
  kw_replicas :: "int option"
  kw_acks :: bool
  kw_config :: "(string \<times> string) list option"

definition init_defaults :: topic_kwargs where
  "init_defaults =
     \<lparr>kw_topics = None, kw_pattern = None, kw_key_type = None, kw_value_type = None,
      kw_is_iterator = False, kw_partitions = None, kw_retention = None,
      kw_compacting = None, kw_deleting = None, kw_replicas = None, kw_acks = True,
      kw_config = None\<rparr>"

text \<open>
  The \<open>pattern\<close> setter: given \<open>self.topics\<close> and the new pattern, the error raised or
  the value stored in \<open>_pattern\<close>.
\<close>

definition pattern_setter :: "string list option \<Rightarrow> pattern_arg option \<Rightarrow> error + string option" where
  "pattern_setter self_topics p =
     (if truthy_pattern p \<and> truthy_topics self_topics then Inl TypeError
      else Inr (map_option re_compile p))"

text \<open>The \<open>partitions\<close> setter: the error raised or the value stored in \<open>_partitions\<close>.\<close>

definition partitions_setter :: "app \<Rightarrow> int option \<Rightarrow> error + int" where
  "partitions_setter ap p =
     (let p' = (case p of None \<Rightarrow> default_partitions ap | Some n \<Rightarrow> n)
      in if p' = 0 then Inl ValueError else Inr p')"

text \<open>The \<open>replicas\<close> setter: the value stored in \<open>_replicas\<close>.\<close>

definition replicas_setter :: "app \<Rightarrow> int option \<Rightarrow> int" where
  "replicas_setter ap r = (case r of None \<Rightarrow> replication_factor ap | Some n \<Rightarrow> n)"

text \<open>
  \<open>Topic.__init__\<close>: the assignments in the order of the source, so the pattern check
  comes before the partitions check. \<open>Channel.__init__\<close> stores the key and value models
  and the iterator flag. \<open>acks\<close> is accepted and not stored.
\<close>

definition Topic_init :: "app \<Rightarrow> topic_kwargs \<Rightarrow> error + topic" where
  "Topic_init ap kw =
     (case pattern_setter (kw_topics kw) (kw_pattern kw) of
        Inl e \<Rightarrow> Inl e
      | Inr pat \<Rightarrow>
          (case partitions_setter ap (kw_partitions kw) of
             Inl e \<Rightarrow> Inl e
           | Inr parts \<Rightarrow>
               Inr \<lparr>topic_app = ap,
                    topics = kw_topics kw,
                    pattern = pat,
                    key_type = kw_key_type kw,
                    value_type = kw_value_type kw,
                    is_iterator = kw_is_iterator kw,
                    partitions = parts,
                    retention = kw_retention kw,
                    compacting = kw_compacting kw,
                    deleting = kw_deleting kw,
                    replicas = replicas_setter ap (kw_replicas kw),
                    config = (case kw_config kw of None \<Rightarrow> [] | Some c \<Rightarrow> c),
                    declared = False\<rparr>))"

text \<open>The keyword arguments of \<open>Topic.derive\<close>, with \<open>no_overrides\<close> their defaults.\<close>

record derive_kwargs =
  dv_topics :: "string list option"
  dv_key_type :: "string option"
  dv_value_type :: "string option"
  dv_partitions :: "int option"
  dv_retention :: "int option"
  dv_compacting :: "bool option"
  dv_deleting :: "bool option"
  dv_config :: "(string \<times> string) list option"
  dv_prefix :: string
  dv_suffix :: string

definition no_overrides :: derive_kwargs where
  "no_overrides =
     \<lparr>dv_topics = None, dv_key_type = None, dv_value_type = None, dv_partitions = None,
      dv_retention = None, dv_compacting = None, dv_deleting = None, dv_config = None,
      dv_prefix = [], dv_suffix = []\<rparr>"

text \<open>\<open>x if arg is None else arg\<close>.\<close>

definition inherit :: "'a \<Rightarrow> 'a option \<Rightarrow> 'a" where
  "inherit x arg = (case arg of None \<Rightarrow> x | Some y \<Rightarrow> y)"

text \<open>
  \<open>Topic.derive\<close>. In the source the line that rebuilds the names as
  \<open>prefix + topic + suffix\<close> stands inside \<open>if self.pattern:\<close>, after the \<open>raise\<close>:
  it is never reached, so with a prefix or suffix and no pattern the names pass on as
  they are, in both branches below. The call of the constructor (\<open>derive_construct\<close>)
  passes neither \<open>is_iterator\<close> nor \<open>replicas\<close> nor \<open>acks\<close>, which take their
  defaults.
\<close>

definition derive_construct :: "topic \<Rightarrow> derive_kwargs \<Rightarrow> string list option \<Rightarrow> error + topic" where
  "derive_construct self kw ts =
     Topic_init (topic_app self)
       \<lparr>kw_topics = ts,
        kw_pattern = map_option PatternCompiled (pattern self),
        kw_key_type = inherit (key_type self) (map_option Some (dv_key_type kw)),
        kw_value_type = inherit (value_type self) (map_option Some (dv_value_type kw)),
        kw_is_iterator = False,
        kw_partitions = Some (inherit (partitions self) (dv_partitions kw)),
        kw_retention = inherit (retention self) (map_option Some (dv_retention kw)),
        kw_compacting = inherit (compacting self) (map_option Some (dv_compacting kw)),
        kw_deleting = inherit (deleting self) (map_option Some (dv_deleting kw)),
        kw_replicas = None,
        kw_acks = True,
        kw_config = Some (inherit (config self) (dv_config kw))\<rparr>"

definition derive :: "topic \<Rightarrow> derive_kwargs \<Rightarrow> error + topic" where
  "derive self kw =
     (let ts = (case dv_topics kw of None \<Rightarrow> topics self | Some t \<Rightarrow> Some t)
      in if truthy_str (dv_suffix kw) \<or> truthy_str (dv_prefix kw)
         then (if pattern self \<noteq> None then Inl ValueError
               else derive_construct self kw ts)
         else derive_construct self kw ts)"

text \<open>
  \<open>Topic.get_topic_name\<close> is \<open>self.topics[0]\<close>: subscripting \<open>None\<close> is a
  \<open>TypeError\<close>, the first element of an empty list an \<open>IndexError\<close>.
\<close>

definition get_topic_name :: "topic \<Rightarrow> error + string" where
  "get_topic_name self =
     (case topics self of
        None \<Rightarrow> Inl TypeError
      | Some [] \<Rightarrow> Inl IndexError
      | Some (t # ts) \<Rightarrow> Inr t)"

section \<open>Attachments (faust/app/_attached.py)\<close>

text \<open>
  A source message as far as the two modules read it: its topic-partition, its offset
  and its reference count.
\<close>

record message =
  msg_topic :: string
  msg_partition :: int
  msg_offset :: int
  refcount :: nat

definition msg_tp :: "message \<Rightarrow> TP" where
  "msg_tp m = TP (msg_topic m) (msg_partition m)"

text \<open>
  A \<open>FutureMessage\<close>: the pending message (channel, key, value, partition) that
  \<open>Channel.as_future_message\<close> wraps. \<open>put\<close> has already turned a channel given by
  name into a \<open>Topic\<close>, so the channel of a future message is a topic. Keys and values
  are bytes.
\<close>

record future_message =
  fm_channel :: topic
  fm_key :: "string option"
  fm_value :: "string option"
  fm_partition :: "int option"

text \<open>
  The worker's outbox state: \<open>pending\<close> is \<open>Attachments._pending\<close>, a dictionary of
  dictionaries of lists; \<open>sent\<close> is the log of what was handed to the producer, each
  entry the resolved topic name and the future message.
\<close>

record attachments =
  pending :: "TP \<rightharpoonup> (int \<rightharpoonup> future_message list)"
  sent :: "(string \<times> future_message) list"

text \<open>
  Reading \<open>self._pending[tp]\<close> of the \<open>defaultdict\<close>: a missing key is created with
  an empty inner dictionary.
\<close>

definition inner_dict :: "attachments \<Rightarrow> TP \<Rightarrow> (int \<rightharpoonup> future_message list)" where
  "inner_dict self tp = (case pending self tp of None \<Rightarrow> Map.empty | Some buf \<Rightarrow> buf)"

text \<open>What the buffer holds at \<open>buffer[tp][off]\<close>, without creating anything.\<close>

definition buffer_at :: "attachments \<Rightarrow> TP \<Rightarrow> int \<Rightarrow> future_message list option" where
  "buffer_at self tp off = (case pending self tp of None \<Rightarrow> None | Some buf \<Rightarrow> buf off)"

text \<open>
  \<open>Attachments.put\<close>: the inner \<open>defaultdict(list)\<close> creates the list of a new offset,
  and the future message is appended to it. A channel given by name is turned into a
  topic by the application (\<open>self.app.topic\<close>), outside these modules; the model takes
  the topic. The serializers and the callback are passed on to the future message and
  play no part here.
\<close>

definition put ::
  "attachments \<Rightarrow> message \<Rightarrow> topic \<Rightarrow> string option \<Rightarrow> string option \<Rightarrow> int option
     \<Rightarrow> future_message \<times> attachments" where
  "put self message chan key val part =
     (let buf = inner_dict self (msg_tp message);
          fut = \<lparr>fm_channel = chan, fm_key = key, fm_value = val, fm_partition = part\<rparr>;
          futs = (case buf (msg_offset message) of None \<Rightarrow> [] | Some l \<Rightarrow> l)
      in (fut,
          self\<lparr>pending := (pending self)(msg_tp message \<mapsto>
                   buf(msg_offset message \<mapsto> futs @ [fut]))\<rparr>))"

text \<open>\<open>Attachments._attachments_for\<close>: \<open>self._pending[tp].pop(commit_offset, None)\<close>.\<close>

definition attachments_for ::
  "attachments \<Rightarrow> TP \<Rightarrow> int \<Rightarrow> future_message list option \<times> attachments" where
  "attachments_for self tp commit_offset =
     (let buf = inner_dict self tp
      in (buf commit_offset,
          self\<lparr>pending := (pending self)(tp \<mapsto> buf(commit_offset := None))\<rparr>))"

text \<open>
  \<open>Topic.publish_message(fut, wait=False)\<close>: the channel of the message is a topic, so
  the destination is its first name, and the record goes to the producer. The producer
  and the sensors are taken to accept the call.
\<close>

definition publish_message :: "attachments \<Rightarrow> future_message \<Rightarrow> error + attachments" where
  "publish_message self fut =
     (case get_topic_name (fm_channel fut) of
        Inl e \<Rightarrow> Inl e
      | Inr name \<Rightarrow> Inr (self\<lparr>sent := sent self @ [(name, fut)]\<rparr>))"

text \<open>
  The list comprehension of \<open>commit\<close>: each publish is awaited in turn, and the first
  exception ends the loop with the earlier messages already sent.
\<close>

fun publish_each :: "attachments \<Rightarrow> future_message list \<Rightarrow> error option \<times> attachments" where
  "publish_each self [] = (None, self)"
| "publish_each self (fut # futs) =
     (case publish_message self fut of
        Inl e \<Rightarrow> (Some e, self)
      | Inr self' \<Rightarrow> publish_each self' futs)"

text \<open>
  \<open>Attachments.commit\<close>: the entry is popped first; the publishes follow only when the
  popped value is a non-empty list. The result is the exception, if any, and the state.
  The \<open>asyncio.wait\<close> that ends \<open>commit\<close> changes neither the buffer nor what was
  sent; whether the futures it waits for complete is up to the producer.
\<close>

definition commit :: "attachments \<Rightarrow> TP \<Rightarrow> int \<Rightarrow> error option \<times> attachments" where
  "commit self tp offset =
     (case attachments_for self tp offset of
        (None, self') \<Rightarrow> (None, self')
      | (Some attached, self') \<Rightarrow>
          (if attached \<noteq> [] then publish_each self' attached else (None, self')))"

text \<open>The future messages published between two states, in order.\<close>

definition published_since :: "attachments \<Rightarrow> attachments \<Rightarrow> future_message list" where
  "published_since before after = drop (length (sent before)) (map snd (sent after))"

text \<open>
  Two or more \<open>commit\<close> coroutines on one event loop. A coroutine gives up control only
  at an \<open>await\<close>: the pop happens in its first step, every publish is a step of its own,
  and the final \<open>asyncio.wait\<close> is the last step. \<open>run_schedule\<close> runs the tasks in the
  order a schedule names them by index.
\<close>

datatype commit_task =
    Started TP int
  | Publishing "future_message list"
  | Finished "error option"

fun step_task :: "attachments \<Rightarrow> commit_task \<Rightarrow> attachments \<times> commit_task" where
  "step_task self (Started tp offset) =
     (case attachments_for self tp offset of
        (None, self') \<Rightarrow> (self', Finished None)
      | (Some attached, self') \<Rightarrow>
          (if attached \<noteq> [] then (self', Publishing attached) else (self', Finished None)))"
| "step_task self (Publishing []) = (self, Finished None)"
| "step_task self (Publishing (fut # futs)) =
     (case publish_message self fut of
        Inl e \<Rightarrow> (self, Finished (Some e))
      | Inr self' \<Rightarrow> (self', Publishing futs))"
| "step_task self (Finished r) = (self, Finished r)"

fun run_schedule ::
  "attachments \<Rightarrow> commit_task list \<Rightarrow> nat list \<Rightarrow> attachments \<times> commit_task list" where
  "run_schedule self tasks [] = (self, tasks)"
| "run_schedule self tasks (i # sched) =
     (if i < length tasks
      then (case step_task self (tasks ! i) of
              (self', task') \<Rightarrow> run_schedule self' (tasks[i := task']) sched)
      else run_schedule self tasks sched)"

section \<open>Topic manager (faust/topics.py)\<close>

text \<open>
  The state of the fan-out: \<open>topicmap\<close> is \<open>_topicmap\<close>, a \<open>defaultdict(set)\<close> from a
  topic name to the channels that subscribe to it (each set is kept as a list without
  repetitions, in the order \<open>list(...)\<close> happens to give); \<open>pending_tasks\<close> is the queue
  of delivery units, each the channel and the message as it is when the unit is made;
  \<open>calls\<close> logs what \<open>on_message\<close> does to its collaborators, in order.
\<close>

datatype fanout_call = IncrefBulk nat | PutPendingTask topic

record topic_manager =
  topicmap :: "string \<rightharpoonup> topic list"
  pending_tasks :: "(topic \<times> message) list"
  calls :: "fanout_call list"

text \<open>
  Modelled from the spec: \<open>Message.incref_bulk\<close> is not among the sources; the
  specification's fan-out step 2 says it increments the reference count by the channel
  count.
\<close>

definition incref_bulk :: "message \<Rightarrow> topic list \<Rightarrow> message" where
  "incref_bulk m chans = m\<lparr>refcount := refcount m + length chans\<rparr>"

text \<open>\<open>self._topicmap.__getitem__\<close>: a missing name is created with the empty set.\<close>

definition get_channels_for_topic :: "topic_manager \<Rightarrow> string \<Rightarrow> topic list \<times> topic_manager" where
  "get_channels_for_topic self name =
     (case topicmap self name of
        None \<Rightarrow> ([], self\<lparr>topicmap := (topicmap self)(name \<mapsto> [])\<rparr>)
      | Some chans \<Rightarrow> (chans, self))"

text \<open>
  The list comprehension of \<open>on_message\<close>: one \<open>put\<close> of a \<open>deliver(message)\<close> unit per
  channel. The queue has no bound, so every \<open>put\<close> goes through; \<open>asyncio.wait\<close> runs
  them in an order of its own, which the model takes to be the order of the list.
\<close>

fun add_pending_tasks :: "topic_manager \<Rightarrow> message \<Rightarrow> topic list \<Rightarrow> topic_manager" where
  "add_pending_tasks self m [] = self"
| "add_pending_tasks self m (chan # chans) =
     add_pending_tasks
       (self\<lparr>pending_tasks := pending_tasks self @ [(chan, m)],
             calls := calls self @ [PutPendingTask chan]\<rparr>) m chans"

text \<open>
  The \<open>on_message\<close> closure of \<open>_compile_message_handler\<close>. \<open>asyncio.wait\<close> raises
  \<open>ValueError\<close> on an empty list. The result is the exception, if any, the message
  object after the call and the manager.
\<close>

definition on_message ::
  "topic_manager \<Rightarrow> message \<Rightarrow> error option \<times> message \<times> topic_manager" where
  "on_message self m =
     (case get_channels_for_topic self (msg_topic m) of
        (chans, self1) \<Rightarrow>
          (let m' = incref_bulk m chans;
               self2 = self1\<lparr>calls := calls self1 @ [IncrefBulk (length chans)]\<rparr>
           in if chans = [] then (Some ValueError, m', self2)
              else (None, m', add_pending_tasks self2 m' chans)))"

text \<open>\<open>TopicManager.on_partitions_revoked\<close>: its body is \<open>...\<close>.\<close>

definition TopicManager_on_partitions_revoked :: "topic_manager \<Rightarrow> TP list \<Rightarrow> topic_manager" where
  "TopicManager_on_partitions_revoked self revoked = self"

section \<open>Table manager (faust/tables/manager.py)\<close>

text \<open>
  A table as the manager uses it: its name, the name of its changelog topic and the
  offsets its store has persisted (\<open>persisted_offset(tp)\<close> is \<open>None\<close> for a
  topic-partition that is not listed).
\<close>

record table =
  table_name :: "string option"
  changelog_topic :: string
  persisted :: "(TP \<times> int) list"

definition persisted_offset :: "table \<Rightarrow> TP \<Rightarrow> int option" where
  "persisted_offset t tp = map_of (persisted t) tp"

text \<open>
  A \<open>ChangelogReader\<close> or \<open>StandbyReader\<close> as the manager builds it: the table, the
  channel, the topic-partitions and the offsets to start from.
\<close>

record reader =
  rd_table :: table
  rd_channel :: string
  rd_tps :: "TP list"
  rd_tp_offsets :: "(TP \<times> int) list"
  rd_standby :: bool

text \<open>
  What the manager asks of its collaborators, in order: the consumer, the tables and
  the readers.
\<close>

datatype event =
    PausePartitions "TP list"
  | ResumePartitions "TP list"
  | PerformSeek
  | TableAssigned table "TP list"
  | TableRevoked table "TP list"
  | CallRecoverCallbacks table
  | TableMaybeStart table
  | ReaderStart reader
  | ReaderStop reader

text \<open>
  What the collaborators answer. The readers are not among the sources: the offsets a
  reader holds when the manager reads \<open>reader.offsets\<close>, and what \<open>recovered()\<close>
  returns, are given by the environment, as are the assignor's and the consumer's
  assignments and the value of \<open>self._stopped.is_set()\<close> when \<open>_recover\<close> reads it.
\<close>

record table_env =
  reader_offsets :: "reader \<Rightarrow> (TP \<times> int) list"
  reader_recovered :: "reader \<Rightarrow> bool"
  assigned_actives :: "TP list"
  assigned_standbys :: "TP list"
  consumer_assignment :: "TP list"
  service_stopped :: bool

text \<open>
  The recovery task that \<open>on_partitions_assigned\<close> hands to the event loop. The task
  is a coroutine: it has either not run yet, or waits for its revivers to finish reading
  (holding its local variables \<open>assigned\<close>, \<open>standby_tps\<close> and \<open>table_revivers\<close>),
  or is done, with the exception that ended it if there was one. The other awaits of
  \<open>_recover\<close> are taken not to be interrupted.
\<close>

datatype recovery_task =
    NotStarted "TP list"
  | Reading "TP list" "TP list" "reader list"
  | Completed "error option"

text \<open>
  The manager. \<open>data\<close> is the dictionary of tables by name, in insertion order, and
  \<open>standbys\<close> the dictionary of standby readers by table; both are iterated. The other
  dictionaries are only looked up.
\<close>

record table_manager =
  data :: "(string \<times> table) list"
  channels :: "table \<rightharpoonup> string"
  changelogs :: "string \<rightharpoonup> table"
  table_offsets :: "TP \<rightharpoonup> int"
  standbys :: "(table \<times> reader) list"
  revivers :: "reader list option"
  ongoing_recovery :: "recovery_task option"
  recovery_started :: bool
  recovery_completed :: bool
  events :: "event list"

definition emit :: "table_manager \<Rightarrow> event list \<Rightarrow> table_manager" where
  "emit self evs = self\<lparr>events := events self @ evs\<rparr>"

text \<open>\<open>self.values()\<close>.\<close>

definition table_values :: "table_manager \<Rightarrow> table list" where
  "table_values self = map snd (data self)"

text \<open>
  \<open>TableManager.add\<close>. The result is the exception or the table, with the manager
  after the call.
\<close>

definition add :: "table_manager \<Rightarrow> table \<Rightarrow> (error + table) \<times> table_manager" where
  "add self t =
     (if recovery_started self then (Inl RuntimeError, self)
      else case table_name t of
        None \<Rightarrow> (Inl AssertionError, self)
      | Some n \<Rightarrow>
          (if n \<in> set (map fst (data self)) then (Inl ValueError, self)
           else (Inr t, self\<lparr>data := AList.update n t (data self)\<rparr>)))"

text \<open>\<open>self._table_offsets.get(tp, -1)\<close>.\<close>

definition get_offset :: "(TP \<rightharpoonup> int) \<Rightarrow> TP \<Rightarrow> int" where
  "get_offset offsets tp = (case offsets tp of None \<Rightarrow> - 1 | Some v \<Rightarrow> v)"

text \<open>\<open>TableManager._sync_persisted_offsets\<close>: the loop over \<open>tps\<close>.\<close>

fun sync_persisted_offsets :: "table_manager \<Rightarrow> table \<Rightarrow> TP list \<Rightarrow> table_manager" where
  "sync_persisted_offsets self t [] = self"
| "sync_persisted_offsets self t (tp # tps) =
     (case persisted_offset t tp of
        None \<Rightarrow> sync_persisted_offsets self t tps
      | Some po \<Rightarrow>
          sync_persisted_offsets
            (self\<lparr>table_offsets :=
               (table_offsets self)(tp \<mapsto> max (get_offset (table_offsets self) tp) po)\<rparr>)
            t tps)"

text \<open>
  \<open>TableManager._sync_offsets\<close>: the loop over the items of \<open>reader.offsets\<close>; the two
  log tables change nothing.
\<close>

fun sync_offsets :: "table_manager \<Rightarrow> (TP \<times> int) list \<Rightarrow> table_manager" where
  "sync_offsets self [] = self"
| "sync_offsets self ((tp, offset) # rest) =
     (if 0 \<le> offset
      then sync_offsets
             (self\<lparr>table_offsets :=
                (table_offsets self)(tp \<mapsto> max (get_offset (table_offsets self) tp) offset)\<rparr>)
             rest
      else sync_offsets self rest)"

text \<open>\<open>TableManager._is_changelog_tp\<close>.\<close>

definition is_changelog_tp :: "table_manager \<Rightarrow> TP \<Rightarrow> bool" where
  "is_changelog_tp self tp = (changelogs self (tp_topic tp) \<noteq> None)"

text \<open>
  \<open>TableManager._update_channels\<close>: a channel for every table that has none, the index
  of changelog topics rebuilt, and the assigned changelog partitions paused.
\<close>

fun acquire_channels :: "(table \<rightharpoonup> string) \<Rightarrow> table list \<Rightarrow> (table \<rightharpoonup> string)" where
  "acquire_channels chans [] = chans"
| "acquire_channels chans (t # ts) =
     (if chans t = None then acquire_channels (chans(t \<mapsto> changelog_topic t)) ts
      else acquire_channels chans ts)"

fun index_changelogs :: "(string \<rightharpoonup> table) \<Rightarrow> table list \<Rightarrow> (string \<rightharpoonup> table)" where
  "index_changelogs idx [] = idx"
| "index_changelogs idx (t # ts) = index_changelogs (idx(changelog_topic t \<mapsto> t)) ts"

definition update_channels :: "table_env \<Rightarrow> table_manager \<Rightarrow> table_manager" where
  "update_channels env self =
     (let self1 = self\<lparr>channels := acquire_channels (channels self) (table_values self)\<rparr>;
          self2 = self1\<lparr>changelogs := index_changelogs (changelogs self1) (table_values self1)\<rparr>
      in emit self2
           [PausePartitions
              (filter (\<lambda>tp. changelogs self2 (tp_topic tp) \<noteq> None) (consumer_assignment env))])"

text \<open>
  The offsets a new reader starts from:
  \<open>{tp: offsets[tp] for tp in table_tps if tp in offsets}\<close>.
\<close>

definition tp_offsets_of :: "table_manager \<Rightarrow> TP list \<Rightarrow> (TP \<times> int) list" where
  "tp_offsets_of self table_tps =
     List.map_filter (\<lambda>tp. map_option (Pair tp) (table_offsets self tp)) table_tps"

text \<open>
  \<open>TableManager._create_reviver\<close>; \<open>self._channels[table]\<close> is a \<open>KeyError\<close> for a
  table without a channel.
\<close>

definition create_reviver ::
  "table_manager \<Rightarrow> table \<Rightarrow> TP list \<Rightarrow> (error + reader) \<times> table_manager" where
  "create_reviver self t tps =
     (let table_tps = filter (\<lambda>tp. tp_topic tp = changelog_topic t) tps;
          self1 = sync_persisted_offsets self t table_tps;
          tp_offsets = tp_offsets_of self1 table_tps
      in case channels self1 t of
           None \<Rightarrow> (Inl KeyError, self1)
         | Some channel \<Rightarrow>
             (Inr \<lparr>rd_table = t, rd_channel = channel, rd_tps = table_tps,
                   rd_tp_offsets = tp_offsets, rd_standby = False\<rparr>, self1))"

text \<open>The list comprehension that builds one reviver per table.\<close>

fun create_revivers ::
  "table_manager \<Rightarrow> table list \<Rightarrow> TP list \<Rightarrow> (error + reader list) \<times> table_manager" where
  "create_revivers self [] tps = (Inr [], self)"
| "create_revivers self (t # ts) tps =
     (case create_reviver self t tps of
        (Inl e, self1) \<Rightarrow> (Inl e, self1)
      | (Inr r, self1) \<Rightarrow>
          (case create_revivers self1 ts tps of
             (Inl e, self2) \<Rightarrow> (Inl e, self2)
           | (Inr rs, self2) \<Rightarrow> (Inr (r # rs), self2)))"

text \<open>The loop \<open>for reviver in table_revivers: self._sync_offsets(reviver)\<close>.\<close>

fun sync_all :: "table_env \<Rightarrow> table_manager \<Rightarrow> reader list \<Rightarrow> table_manager" where
  "sync_all env self [] = self"
| "sync_all env self (r # rs) = sync_all env (sync_offsets self (reader_offsets env r)) rs"

text \<open>
  \<open>TableManager._recover_changelogs\<close>, in the two parts that the wait for the readers
  separates: \<open>start_revivers\<close> builds the revivers, stores them in \<open>_revivers\<close> and
  starts them; \<open>finish_revivers\<close> folds their offsets into the table offsets, stops them
  and tells whether all of them recovered.
\<close>

definition start_revivers ::
  "table_manager \<Rightarrow> TP list \<Rightarrow> (error + reader list) \<times> table_manager" where
  "start_revivers self tps =
     (case create_revivers self (table_values self) tps of
        (Inl e, self1) \<Rightarrow> (Inl e, self1)
      | (Inr table_revivers, self1) \<Rightarrow>
          (Inr table_revivers,
           emit (self1\<lparr>revivers := Some table_revivers\<rparr>) (map ReaderStart table_revivers)))"

definition finish_revivers ::
  "table_env \<Rightarrow> table_manager \<Rightarrow> reader list \<Rightarrow> bool \<times> table_manager" where
  "finish_revivers env self table_revivers =
     (let self1 = sync_all env self table_revivers;
          self2 = emit self1 (map ReaderStop table_revivers)
      in (list_all (reader_recovered env) table_revivers, self2))"

definition recover_changelogs ::
  "table_env \<Rightarrow> table_manager \<Rightarrow> TP list \<Rightarrow> (error + bool) \<times> table_manager" where
  "recover_changelogs env self tps =
     (case start_revivers self tps of
        (Inl e, self1) \<Rightarrow> (Inl e, self1)
      | (Inr table_revivers, self1) \<Rightarrow>
          (case finish_revivers env self1 table_revivers of
             (did_recover, self2) \<Rightarrow> (Inr did_recover, self2)))"

text \<open>
  \<open>TableManager._group_table_tps\<close>: the changelog topic-partitions grouped by table, a
  \<open>defaultdict(set)\<close> in insertion order.
\<close>

fun group_table_tps_loop ::
  "table_manager \<Rightarrow> (table \<times> TP list) list \<Rightarrow> TP list \<Rightarrow> (table \<times> TP list) list" where
  "group_table_tps_loop self table_tps [] = table_tps"
| "group_table_tps_loop self table_tps (tp # tps) =
     (case changelogs self (tp_topic tp) of
        None \<Rightarrow> group_table_tps_loop self table_tps tps
      | Some t \<Rightarrow>
          group_table_tps_loop self
            (AList.update t
               (List.insert tp (case map_of table_tps t of None \<Rightarrow> [] | Some s \<Rightarrow> s))
               table_tps)
            tps)"

definition group_table_tps :: "table_manager \<Rightarrow> TP list \<Rightarrow> (table \<times> TP list) list" where
  "group_table_tps self tps = group_table_tps_loop self [] tps"

text \<open>The loop of \<open>_start_standbys\<close> over the grouped topic-partitions.\<close>

fun start_standbys_loop ::
  "table_manager \<Rightarrow> (table \<times> TP list) list \<Rightarrow> error option \<times> table_manager" where
  "start_standbys_loop self [] = (None, self)"
| "start_standbys_loop self ((t, table_tps) # rest) =
     (let self1 = sync_persisted_offsets self t table_tps;
          tp_offsets = tp_offsets_of self1 table_tps
      in case channels self1 t of
           None \<Rightarrow> (Some KeyError, self1)
         | Some channel \<Rightarrow>
             (let standby = \<lparr>rd_table = t, rd_channel = channel, rd_tps = table_tps,
                             rd_tp_offsets = tp_offsets, rd_standby = True\<rparr>
              in start_standbys_loop
                   (emit (self1\<lparr>standbys := AList.update t standby (standbys self1)\<rparr>)
                      [ReaderStart standby])
                   rest))"

text \<open>\<open>TableManager._start_standbys\<close>, with its assertion that none is running.\<close>

definition start_standbys :: "table_manager \<Rightarrow> TP list \<Rightarrow> error option \<times> table_manager" where
  "start_standbys self tps =
     (if standbys self \<noteq> [] then (Some AssertionError, self)
      else start_standbys_loop self (group_table_tps self tps))"

text \<open>\<open>TableManager._stop_standbys\<close>.\<close>

fun stop_standbys_loop :: "table_env \<Rightarrow> table_manager \<Rightarrow> reader list \<Rightarrow> table_manager" where
  "stop_standbys_loop env self [] = self"
| "stop_standbys_loop env self (standby # rest) =
     stop_standbys_loop env
       (sync_offsets (emit self [ReaderStop standby]) (reader_offsets env standby)) rest"

definition stop_standbys :: "table_env \<Rightarrow> table_manager \<Rightarrow> table_manager" where
  "stop_standbys env self =
     (stop_standbys_loop env self (map snd (standbys self)))\<lparr>standbys := []\<rparr>"

text \<open>\<open>_on_recovery_started\<close> and \<open>_on_recovery_completed\<close>.\<close>

definition on_recovery_started :: "table_env \<Rightarrow> table_manager \<Rightarrow> table_manager" where
  "on_recovery_started env self = update_channels env (self\<lparr>recovery_started := True\<rparr>)"

definition on_recovery_completed :: "table_manager \<Rightarrow> table_manager" where
  "on_recovery_completed self =
     (emit self (map TableMaybeStart (table_values self)))\<lparr>recovery_completed := True\<rparr>"

text \<open>
  \<open>TableManager._recover\<close>. \<open>recover_outcome\<close> is the branch on \<open>did_recover\<close>
  together with the last line. An exception leaves the manager as it was when it was
  raised.
\<close>

definition recover_outcome ::
  "table_env \<Rightarrow> table_manager \<Rightarrow> TP list \<Rightarrow> TP list \<Rightarrow> bool \<Rightarrow> error option \<times> table_manager" where
  "recover_outcome env self assigned standby_tps did_recover =
     (if did_recover \<and> \<not> service_stopped env
      then (let self1 = emit self (map CallRecoverCallbacks (table_values self));
                self2 = emit self1 [PerformSeek]
            in case start_standbys self2 standby_tps of
                 (Some e, self3) \<Rightarrow> (Some e, self3)
               | (None, self3) \<Rightarrow>
                   (let self4 = on_recovery_completed self3;
                        self5 = emit self4
                          [ResumePartitions
                             (filter (\<lambda>tp. \<not> is_changelog_tp self4 tp) assigned)]
                    in (None, self5\<lparr>revivers := None\<rparr>)))
      else (None, self\<lparr>revivers := None\<rparr>))"

definition recover :: "table_env \<Rightarrow> table_manager \<Rightarrow> TP list \<Rightarrow> error option \<times> table_manager" where
  "recover env self assigned =
     (let standby_tps = assigned_standbys env;
          assigned_tps = assigned_actives env
      in if \<not> set assigned_tps \<subseteq> set assigned then (Some AssertionError, self)
         else (let self1 = on_recovery_started env self;
                   self2 = emit self1 (map (\<lambda>t. TableAssigned t assigned) (table_values self1))
               in case recover_changelogs env self2 assigned_tps of
                    (Inl e, self3) \<Rightarrow> (Some e, self3)
                  | (Inr did_recover, self3) \<Rightarrow>
                      recover_outcome env self3 assigned standby_tps did_recover))"

text \<open>
  The same coroutine in the two parts that its wait for the readers separates:
  \<open>recover_start\<close> runs up to the started revivers, \<open>recover_finish\<close> from there on.
  Run one after the other they are \<open>recover\<close> (lemma \<open>recover_split\<close> below).
\<close>

definition recover_start ::
  "table_env \<Rightarrow> table_manager \<Rightarrow> TP list \<Rightarrow> (error + reader list) \<times> table_manager" where
  "recover_start env self assigned =
     (let assigned_tps = assigned_actives env
      in if \<not> set assigned_tps \<subseteq> set assigned then (Inl AssertionError, self)
         else (let self1 = on_recovery_started env self;
                   self2 = emit self1 (map (\<lambda>t. TableAssigned t assigned) (table_values self1))
               in start_revivers self2 assigned_tps))"

definition recover_finish ::
  "table_env \<Rightarrow> table_manager \<Rightarrow> TP list \<Rightarrow> TP list \<Rightarrow> reader list
     \<Rightarrow> error option \<times> table_manager" where
  "recover_finish env self assigned standby_tps table_revivers =
     (case finish_revivers env self table_revivers of
        (did_recover, self1) \<Rightarrow> recover_outcome env self1 assigned standby_tps did_recover)"

text \<open>
  \<open>TableManager.on_partitions_assigned\<close>: the recovery is handed to the event loop
  after the assertion that none is under way.
\<close>

definition on_partitions_assigned ::
  "table_manager \<Rightarrow> TP list \<Rightarrow> error option \<times> table_manager" where
  "on_partitions_assigned self assigned =
     (if ongoing_recovery self = None \<and> revivers self = None
      then (None, self\<lparr>ongoing_recovery := Some (NotStarted assigned)\<rparr>)
      else (Some AssertionError, self))"

text \<open>
  The event loop runs the recovery task up to its next wait. A task that ends, with
  or without an exception, is kept as \<open>Completed\<close>.
\<close>

definition step_recovery :: "table_env \<Rightarrow> table_manager \<Rightarrow> table_manager" where
  "step_recovery env self =
     (case ongoing_recovery self of
        Some (NotStarted assigned) \<Rightarrow>
          (case recover_start env self assigned of
             (Inl e, self1) \<Rightarrow> self1\<lparr>ongoing_recovery := Some (Completed (Some e))\<rparr>
           | (Inr table_revivers, self1) \<Rightarrow>
               self1\<lparr>ongoing_recovery :=
                        Some (Reading assigned (assigned_standbys env) table_revivers)\<rparr>)
      | Some (Reading assigned standby_tps table_revivers) \<Rightarrow>
          (case recover_finish env self assigned standby_tps table_revivers of
             (r, self1) \<Rightarrow> self1\<lparr>ongoing_recovery := Some (Completed r)\<rparr>)
      | _ \<Rightarrow> self)"

text \<open>
  \<open>TableManager._maybe_abort_ongoing_recovery\<close>. A task that is not done has its
  revivers stopped, if there are any, and is then awaited: the task runs to its end, and
  an exception of the task is raised again in the caller. The service is taken not to be
  stopped during the wait.
\<close>

definition await_recovery :: "table_env \<Rightarrow> table_manager \<Rightarrow> error option \<times> table_manager" where
  "await_recovery env self =
     (let self1 = step_recovery env (step_recovery env self)
      in case ongoing_recovery self1 of
           Some (Completed r) \<Rightarrow> (r, self1)
         | _ \<Rightarrow> (None, self1))"

definition maybe_abort_ongoing_recovery ::
  "table_env \<Rightarrow> table_manager \<Rightarrow> error option \<times> table_manager" where
  "maybe_abort_ongoing_recovery env self =
     (case ongoing_recovery self of
        None \<Rightarrow> (None, self)
      | Some (Completed r) \<Rightarrow> (None, self\<lparr>ongoing_recovery := None\<rparr>)
      | Some task \<Rightarrow>
          (let self1 = (case revivers self of
                          None \<Rightarrow> self
                        | Some rs \<Rightarrow> if rs \<noteq> [] then emit self (map ReaderStop rs) else self)
           in case await_recovery env self1 of
                (Some e, self2) \<Rightarrow> (Some e, self2)
              | (None, self2) \<Rightarrow> (None, self2\<lparr>ongoing_recovery := None\<rparr>)))"

text \<open>\<open>TableManager.on_partitions_revoked\<close>.\<close>

definition on_partitions_revoked ::
  "table_env \<Rightarrow> table_manager \<Rightarrow> TP list \<Rightarrow> error option \<times> table_manager" where
  "on_partitions_revoked env self revoked =
     (case maybe_abort_ongoing_recovery env self of
        (Some e, self1) \<Rightarrow> (Some e, self1)
      | (None, self1) \<Rightarrow>
          (let self2 = stop_standbys env self1
           in (None, emit self2 (map (\<lambda>t. TableRevoked t revoked) (table_values self2)))))"

text \<open>\<open>TableManager.on_start\<close>, after its sleep.\<close>

definition on_start :: "table_env \<Rightarrow> table_manager \<Rightarrow> table_manager" where
  "on_start env self = update_channels env self"

text \<open>
  The life of the manager: any sequence of calls from outside and of turns of the event
  loop, each with the answers the collaborators give during it. An exception ends the
  call that raised it and leaves the manager as it then is.
\<close>

datatype manager_call =
    Add table
  | OnStart
  | OnPartitionsAssigned "TP list"
  | RunRecoveryTask
  | OnPartitionsRevoked "TP list"

fun apply_call :: "table_manager \<Rightarrow> table_env \<times> manager_call \<Rightarrow> table_manager" where
  "apply_call self (env, Add t) = snd (add self t)"
| "apply_call self (env, OnStart) = on_start env self"
| "apply_call self (env, OnPartitionsAssigned assigned) = snd (on_partitions_assigned self assigned)"
| "apply_call self (env, RunRecoveryTask) = step_recovery env self"
| "apply_call self (env, OnPartitionsRevoked revoked) = snd (on_partitions_revoked env self revoked)"

definition manager_run :: "table_manager \<Rightarrow> (table_env \<times> manager_call) list \<Rightarrow> table_manager" where
  "manager_run self cs = foldl apply_call self cs"

section \<open>The worker on revocation\<close>

text \<open>
  The three components side by side, and everything the three modules do when
  partitions are revoked: the topic manager's callback and the table manager's.
  \<open>Attachments\<close> defines no callback for it.
\<close>

record worker =
  w_attachments :: attachments
  w_topics :: topic_manager
  w_tables :: table_manager

definition worker_on_partitions_revoked ::
  "table_env \<Rightarrow> worker \<Rightarrow> TP list \<Rightarrow> error option \<times> worker" where
  "worker_on_partitions_revoked env w revoked =
     (let w1 = w\<lparr>w_topics := TopicManager_on_partitions_revoked (w_topics w) revoked\<rparr>
      in case on_partitions_revoked env (w_tables w1) revoked of
           (r, tm) \<Rightarrow> (r, w1\<lparr>w_tables := tm\<rparr>))"

text \<open>The manager as \<open>TableManager.__init__\<close> leaves it.\<close>

definition TableManager_init :: table_manager where
  "TableManager_init =
     \<lparr>data = [], channels = Map.empty, changelogs = Map.empty, table_offsets = Map.empty,
      standbys = [], revivers = None, ongoing_recovery = None, recovery_started = False,
      recovery_completed = False, events = []\<rparr>"

section \<open>Vocabulary of the properties\<close>

text \<open>The channels subscribed to a topic name, read without creating an entry.\<close>

definition subscribed :: "topic_manager \<Rightarrow> string \<Rightarrow> topic list" where
  "subscribed self name = (case topicmap self name of None \<Rightarrow> [] | Some chans \<Rightarrow> chans)"

text \<open>
  The future messages the buffer holds for a topic-partition and offset: the list at
  \<open>buffer[tp][off]\<close>, empty when there is no entry.
\<close>

definition stored :: "attachments \<Rightarrow> TP \<Rightarrow> int \<Rightarrow> future_message list" where
  "stored self tp off = (case buffer_at self tp off of None \<Rightarrow> [] | Some futs \<Rightarrow> futs)"

text \<open>
  What a \<open>commit\<close> coroutine has popped and not yet published.
\<close>

fun remaining :: "commit_task \<Rightarrow> future_message list" where
  "remaining (Publishing futs) = futs"
| "remaining _ = []"

text \<open>
  A \<open>commit\<close> coroutine that has not popped yet is one for the given topic-partition
  and offset.
\<close>

fun commits_key :: "TP \<Rightarrow> int \<Rightarrow> commit_task \<Rightarrow> bool" where
  "commits_key tp off (Started tp' off') = (tp' = tp \<and> off' = off)"
| "commits_key tp off _ = True"

text \<open>
  All the future messages in sight for one topic-partition and offset: those sent,
  those popped by some coroutine and not yet published, and those still in the buffer.
\<close>

definition in_flight ::
  "attachments \<Rightarrow> commit_task list \<Rightarrow> TP \<Rightarrow> int \<Rightarrow> future_message multiset" where
  "in_flight self tasks tp off =
     mset (map snd (sent self)) + (\<Sum>t\<leftarrow>tasks. mset (remaining t)) + mset (stored self tp off)"

text \<open>
  The buffer as \<open>Attachments.__init__\<close> leaves it, and nothing sent yet.
\<close>

definition Attachments_init :: attachments where
  "Attachments_init = \<lparr>pending = Map.empty, sent = []\<rparr>"

text \<open>
  No topic-partition reads a smaller table offset in the second manager than in the
  first, the offsets read as the manager reads them, \<open>-1\<close> for a missing entry.
\<close>

definition offsets_le :: "table_manager \<Rightarrow> table_manager \<Rightarrow> bool" where
  "offsets_le self self' =
     (\<forall>tp. get_offset (table_offsets self) tp \<le> get_offset (table_offsets self') tp)"

text \<open>
  The second manager is the first but for its table offsets, none of which is smaller.
\<close>

definition offsets_grow :: "table_manager \<Rightarrow> table_manager \<Rightarrow> bool" where
  "offsets_grow self self' =
     ((\<exists>m. self' = self\<lparr>table_offsets := m\<rparr>) \<and> offsets_le self self')"

text \<open>
  The effects that belong to a completed recovery: the recover callbacks, the seek of
  the consumer, the start of a standby reader, the start of the tables, and the resuming
  of partitions.
\<close>

fun completes_recovery :: "event \<Rightarrow> bool" where
  "completes_recovery (ReaderStart r) = rd_standby r"
| "completes_recovery (CallRecoverCallbacks t) = True"
| "completes_recovery (TableMaybeStart t) = True"
| "completes_recovery PerformSeek = True"
| "completes_recovery (ResumePartitions tps) = True"
| "completes_recovery (PausePartitions tps) = False"
| "completes_recovery (TableAssigned t tps) = False"
| "completes_recovery (TableRevoked t tps) = False"
| "completes_recovery (ReaderStop r) = False"

text \<open>
  What the manager asked of its collaborators between two states.
\<close>

definition events_since :: "table_manager \<Rightarrow> table_manager \<Rightarrow> event list" where
  "events_since before after = drop (length (events before)) (events after)"

text \<open>
  Between the two states nothing of a completed recovery happened: no such effect,
  the same standbys, the same recovery-completed latch, the same tables.
\<close>

definition quiet :: "table_manager \<Rightarrow> table_manager \<Rightarrow> bool" where
  "quiet self self' =
     ((\<exists>evs. events self' = events self @ evs \<and> filter completes_recovery evs = [])
      \<and> standbys self' = standbys self
      \<and> recovery_completed self' = recovery_completed self
      \<and> data self' = data self)"

section \<open>Example values\<close>

text \<open>
  The application and the topic of the specification's scenario S3: one name,
  \<open>t1\<close>, and eight partitions.
\<close>

definition example_app :: app where
  "example_app = \<lparr>default_partitions = 8, replication_factor = 1\<rparr>"

definition example_topic :: topic where
  "example_topic =
     \<lparr>topic_app = example_app, topics = Some [''t1''], pattern = None, key_type = None,
      value_type = None, is_iterator = False, partitions = 8, retention = None,
      compacting = None, deleting = None, replicas = 1, config = [], declared = False\<rparr>"

text \<open>
  The table of the specification's scenario S4: changelog topic \<open>T-log\<close>, offset 100
  persisted for its partition 0.
\<close>

definition example_table :: table where
  "example_table =
     \<lparr>table_name = Some ''T'', changelog_topic = ''T-log'',
      persisted = [(TP ''T-log'' 0, 100)]\<rparr>"

text \<open>A message on topic \<open>X\<close> that nothing refers to yet.\<close>

definition example_message :: message where
  "example_message = \<lparr>msg_topic = ''X'', msg_partition = 0, msg_offset = 5, refcount = 0\<rparr>"

text \<open>
  The specification's scenario S1: two future messages, one attached to offset 5 and
  one to offset 7 of partition 0 of topic \<open>A\<close>, both by \<open>put\<close>.
\<close>

definition example_fm_a :: future_message where
  "example_fm_a =
     \<lparr>fm_channel = example_topic, fm_key = Some ''k'', fm_value = Some ''a'', fm_partition = None\<rparr>"

definition example_fm_b :: future_message where
  "example_fm_b =
     \<lparr>fm_channel = example_topic, fm_key = Some ''k'', fm_value = Some ''b'', fm_partition = None\<rparr>"

definition example_source :: "int \<Rightarrow> message" where
  "example_source off = \<lparr>msg_topic = ''A'', msg_partition = 0, msg_offset = off, refcount = 1\<rparr>"

definition example_buffer :: attachments where
  "example_buffer =
     snd (put (snd (put Attachments_init (example_source 5) example_topic (Some ''k'') (Some ''a'') None))
            (example_source 7) example_topic (Some ''k'') (Some ''b'') None)"

text \<open>
  Collaborators of the table manager for scenario S4: every reader reaches offset 150
  on each of its topic-partitions and reports that it recovered.
\<close>

definition example_env :: table_env where
  "example_env =
     \<lparr>reader_offsets = (\<lambda>r. map (\<lambda>tp. (tp, 150)) (rd_tps r)),
      reader_recovered = (\<lambda>r. True),
      assigned_actives = [TP ''T-log'' 0],
      assigned_standbys = [],
      consumer_assignment = [TP ''T-log'' 0, TP ''A'' 0],
      service_stopped = False\<rparr>"

text \<open>
  A worker that holds the two attachments of scenario S1 and a fresh table manager.
\<close>

definition example_worker :: worker where
  "example_worker =
     \<lparr>w_attachments = example_buffer,
      w_topics = \<lparr>topicmap = Map.empty, pending_tasks = [], calls = []\<rparr>,
      w_tables = TableManager_init\<rparr>"

text \<open>
  The reviver the manager builds for the table of scenario S4, starting from the
  persisted offset 100.
\<close>

definition example_reader :: reader where
  "example_reader =
     \<lparr>rd_table = example_table, rd_channel = ''T-log'', rd_tps = [TP ''T-log'' 0],
      rd_tp_offsets = [(TP ''T-log'' 0, 100)], rd_standby = False\<rparr>"

text \<open>
  The manager once the table of scenario S4 has been added.
\<close>

definition example_manager :: table_manager where
  "example_manager = TableManager_init\<lparr>data := [(''T'', example_table)]\<rparr>"

text \<open>
  Scenario S4 as calls: the table is added, the manager starts, the partitions are
  assigned, and the event loop runs the recovery task to its end.
\<close>

definition example_calls :: "(table_env \<times> manager_call) list" where
  "example_calls =
     [(example_env, Add example_table),
      (example_env, OnStart),
      (example_env, OnPartitionsAssigned [TP ''T-log'' 0, TP ''A'' 0]),
      (example_env, RunRecoveryTask),
      (example_env, RunRecoveryTask)]"

text \<open>
  The collaborators of scenario S5: the readers report that they did not recover.
\<close>

definition example_interrupted :: table_env where
  "example_interrupted = example_env\<lparr>reader_recovered := (\<lambda>r. False)\<rparr>"

section \<open>Properties of Topic\<close>

lemmas topic_defs =
  Topic_init_def pattern_setter_def partitions_setter_def replicas_setter_def
  derive_def derive_construct_def inherit_def init_defaults_def no_overrides_def Let_def

text \<open>
  On a topic without a pattern, \<open>derive\<close> does not look at the prefix and the suffix
  at all.
\<close>

lemma derive_ignores_prefix_suffix:
  "pattern self = None \<Longrightarrow> derive self (kw\<lparr>dv_prefix := p, dv_suffix := s\<rparr>) = derive self kw"
  by (simp add: derive_def derive_construct_def Let_def)

text \<open>
  Claim C3 says that \<open>derive(prefix=p, suffix=s)\<close> on a topic with a list of names
  wraps each name as \<open>p + name + s\<close> and inherits the rest. The code does not: the
  topic of scenario S3, built with \<open>topics=["t1"]\<close> and \<open>partitions=8\<close> and derived with
  prefix \<open>p-\<close> and suffix \<open>-s\<close>, comes back with the name \<open>t1\<close> unchanged (and eight
  partitions), not \<open>p-t1-s\<close>.
\<close>

theorem derive_prefix_suffix_not_applied:
  "Topic_init example_app (init_defaults\<lparr>kw_topics := Some [''t1''], kw_partitions := Some 8\<rparr>)
     = Inr example_topic
   \<and> derive example_topic (no_overrides\<lparr>dv_prefix := ''p-'', dv_suffix := ''-s''\<rparr>)
     = Inr example_topic
   \<and> topics example_topic = Some [''t1''] \<and> partitions example_topic = 8"
  by (simp add: topic_defs example_app_def example_topic_def)

text \<open>
  Claim C9 says that \<open>derive\<close> without overrides gives a topic with the configuration
  of the original, the replication factor included. The code does not pass
  \<open>replicas\<close> on: a topic built with \<open>replicas=3\<close> in an application whose replication
  factor is 1 derives to a topic with \<open>replicas = 1\<close>.
\<close>

theorem derive_drops_replicas:
  "Topic_init example_app (init_defaults\<lparr>kw_topics := Some [''t1''], kw_replicas := Some 3\<rparr>)
     = Inr (example_topic\<lparr>replicas := 3\<rparr>)
   \<and> derive (example_topic\<lparr>replicas := 3\<rparr>) no_overrides = Inr example_topic
   \<and> replicas example_topic = 1"
  by (simp add: topic_defs example_app_def example_topic_def)

text \<open>
  With a non-empty list of names and a pattern that is true in Python the constructor
  raises \<open>TypeError\<close>.
\<close>

lemma names_and_true_pattern_rejected:
  "ts \<noteq> [] \<Longrightarrow> truthy_pattern (Some p) \<Longrightarrow>
     Topic_init ap (kw\<lparr>kw_topics := Some ts, kw_pattern := Some p\<rparr>) = Inl TypeError"
  by (simp add: Topic_init_def pattern_setter_def)

text \<open>
  The guard of the setter tests the truth value of both arguments, so the empty list of
  names passes it beside a pattern as well.
\<close>

lemma empty_topics_with_pattern_accepted:
  "Topic_init example_app
     (init_defaults\<lparr>kw_topics := Some [], kw_pattern := Some (PatternStr ''^x$'')\<rparr>)
   = Inr (example_topic\<lparr>topics := Some [], pattern := Some ''^x$''\<rparr>)"
  by (simp add: topic_defs example_app_def example_topic_def)

text \<open>
  Claim C8 says that constructing a topic with both a list of names and a pattern
  fails. The code does not fail on the names \<open>["a"]\<close> with the pattern \<open>""\<close>: the
  guard tests the truth value of the string before it is compiled, the empty string is
  false, and the compiled pattern is stored beside the names. The docstring of the class
  says that \<open>TypeError\<close> is raised if both are provided, and the same setter, reached
  through \<open>derive\<close> with the pattern now compiled, does raise it for this very topic.
\<close>

theorem empty_pattern_beside_names_accepted:
  "Topic_init example_app
     (init_defaults\<lparr>kw_topics := Some [''a''], kw_pattern := Some (PatternStr [])\<rparr>)
   = Inr (example_topic\<lparr>topics := Some [''a''], pattern := Some []\<rparr>)
   \<and> derive (example_topic\<lparr>topics := Some [''a''], pattern := Some []\<rparr>) no_overrides
     = Inl TypeError"
  by (simp add: topic_defs example_app_def example_topic_def)

text \<open>
  Extra property X4, the second half of claim C8: \<open>derive\<close> fails with \<open>ValueError\<close>
  whenever a non-empty prefix or suffix is given on a topic that has a pattern.
\<close>

theorem derive_rejects_prefix_suffix_on_pattern:
  "pattern self \<noteq> None \<and> (dv_prefix dkw \<noteq> [] \<or> dv_suffix dkw \<noteq> []) \<longrightarrow>
     derive self dkw = Inl ValueError"
  by (auto simp add: derive_def Let_def)

text \<open>
  Extra property X4 on a topic with the pattern \<open>^x$\<close>: the prefix \<open>p-\<close> is refused.
\<close>

theorem derive_rejects_prefix_suffix_on_pattern_witness:
  "pattern (example_topic\<lparr>topics := None, pattern := Some ''^x$''\<rparr>) \<noteq> None
   \<and> dv_prefix (no_overrides\<lparr>dv_prefix := ''p-''\<rparr>) \<noteq> []
   \<and> derive (example_topic\<lparr>topics := None, pattern := Some ''^x$''\<rparr>)
        (no_overrides\<lparr>dv_prefix := ''p-''\<rparr>) = Inl ValueError"
  using derive_rejects_prefix_suffix_on_pattern
    [of "example_topic\<lparr>topics := None, pattern := Some ''^x$''\<rparr>"
        "no_overrides\<lparr>dv_prefix := ''p-''\<rparr>"]
  by (simp add: example_topic_def)

text \<open>
  Claim C10, as stated, fails: the setter also raises when the value is \<open>None\<close> and the
  application's default is 0, so the supplied value need not be 0.
\<close>

theorem none_partitions_with_zero_default_raises:
  "partitions_setter \<lparr>default_partitions = 0, replication_factor = 1\<rparr> None = Inl ValueError
   \<and> (None :: int option) \<noteq> Some 0"
  by (simp add: partitions_setter_def Let_def)

text \<open>
  Claim C10, amended: the setter raises if and only if the value it would store is 0,
  that is the supplied value is 0, or it is \<open>None\<close> and the application's default is 0;
  \<open>None\<close> is replaced by the application's default; every other integer, negative ones
  included, is stored unchanged.
\<close>

theorem partitions_setter_raises_iff_effective_zero:
  "((\<exists>e. partitions_setter ap v = Inl e) \<longleftrightarrow>
      (v = Some 0 \<or> (v = None \<and> default_partitions ap = 0)))
   \<and> (partitions_setter ap (Some 0) = Inl ValueError)
   \<and> (n \<noteq> 0 \<longrightarrow> partitions_setter ap (Some n) = Inr n)
   \<and> (default_partitions ap \<noteq> 0 \<longrightarrow> partitions_setter ap None = Inr (default_partitions ap))"
  by (auto simp add: partitions_setter_def Let_def split: option.splits if_splits)

text \<open>
  Claim C10 on concrete values: \<open>-3\<close> is stored, \<open>None\<close> becomes the default 8, and
  0 raises.
\<close>

theorem partitions_setter_raises_iff_effective_zero_witness:
  "(- 3 :: int) \<noteq> 0 \<and> partitions_setter example_app (Some (- 3)) = Inr (- 3)
   \<and> default_partitions example_app \<noteq> 0 \<and> partitions_setter example_app None = Inr 8
   \<and> partitions_setter example_app (Some 0) = Inl ValueError"
  using partitions_setter_raises_iff_effective_zero [of example_app "Some (- 3)" "- 3"]
  by (simp add: example_app_def)

section \<open>Properties of the table manager: add\<close>

lemma update_fresh: "k \<notin> set (map fst al) \<Longrightarrow> AList.update k v al = al @ [(k, v)]"
  by (induction al) auto

lemma add_too_late: "recovery_started self \<Longrightarrow> add self t = (Inl RuntimeError, self)"
  by (simp add: add_def)

lemma add_duplicate:
  "\<not> recovery_started self \<Longrightarrow> table_name t = Some n \<Longrightarrow> n \<in> set (map fst (data self))
     \<Longrightarrow> add self t = (Inl ValueError, self)"
  by (simp add: add_def)

lemma add_fresh:
  "\<not> recovery_started self \<Longrightarrow> table_name t = Some n \<Longrightarrow> n \<notin> set (map fst (data self))
     \<Longrightarrow> add self t = (Inr t, self\<lparr>data := AList.update n t (data self)\<rparr>)"
  by (simp add: add_def)

lemma add_failure_keeps_manager: "fst (add self t) = Inl e \<Longrightarrow> snd (add self t) = self"
  by (auto simp add: add_def split: option.splits if_splits)

text \<open>
  Claim C7, as stated, fails: with a table of the same name registered and the
  recovery-started latch set, \<open>add\<close> raises \<open>RuntimeError\<close> (AddTooLate), not
  \<open>ValueError\<close> (DuplicateTable), since the latch is tested first.
\<close>

theorem add_duplicate_after_recovery_started:
  "''T'' \<in> set (map fst (data (TableManager_init
       \<lparr>data := [(''T'', example_table)], recovery_started := True\<rparr>)))
   \<and> table_name example_table = Some ''T''
   \<and> add (TableManager_init\<lparr>data := [(''T'', example_table)], recovery_started := True\<rparr>)
        example_table
     = (Inl RuntimeError,
        TableManager_init\<lparr>data := [(''T'', example_table)], recovery_started := True\<rparr>)
   \<and> (Inl RuntimeError :: error + table) \<noteq> Inl ValueError"
  by (simp add: add_def TableManager_init_def example_table_def)

text \<open>
  Claim C7, amended: \<open>add(table)\<close> registers the table under its name (after the tables
  already there, all other names untouched) and returns it; it fails with
  \<open>RuntimeError\<close> (AddTooLate) whenever the recovery-started latch is set, and fails
  with \<open>ValueError\<close> (DuplicateTable) whenever a table of the same name is registered
  already and the latch is not set; a call that fails leaves the manager, and so its
  tables, as they were.
\<close>

theorem add_registers_or_fails:
  "(recovery_started self \<longrightarrow> add self t = (Inl RuntimeError, self))
   \<and> (\<not> recovery_started self \<and> table_name t = Some n \<and> n \<in> set (map fst (data self)) \<longrightarrow>
        add self t = (Inl ValueError, self))
   \<and> (\<not> recovery_started self \<and> table_name t = Some n \<and> n \<notin> set (map fst (data self)) \<longrightarrow>
        add self t = (Inr t, self\<lparr>data := data self @ [(n, t)]\<rparr>)
        \<and> map_of (data (snd (add self t))) n = Some t
        \<and> (\<forall>k. k \<noteq> n \<longrightarrow> map_of (data (snd (add self t))) k = map_of (data self) k))
   \<and> ((\<exists>e. fst (add self t) = Inl e) \<longrightarrow> snd (add self t) = self)"
proof (intro conjI impI)
  assume "recovery_started self"
  then show "add self t = (Inl RuntimeError, self)" by (rule add_too_late)
next
  assume "\<not> recovery_started self \<and> table_name t = Some n \<and> n \<in> set (map fst (data self))"
  then show "add self t = (Inl ValueError, self)" by (simp add: add_duplicate)
next
  assume h: "\<not> recovery_started self \<and> table_name t = Some n \<and> n \<notin> set (map fst (data self))"
  then have eq: "add self t = (Inr t, self\<lparr>data := AList.update n t (data self)\<rparr>)"
    by (simp add: add_fresh)
  from h have fresh: "AList.update n t (data self) = data self @ [(n, t)]"
    by (simp add: update_fresh)
  show "add self t = (Inr t, self\<lparr>data := data self @ [(n, t)]\<rparr>)"
    using eq fresh by simp
  show "map_of (data (snd (add self t))) n = Some t"
    using eq by (simp add: update_conv')
  show "\<forall>k. k \<noteq> n \<longrightarrow> map_of (data (snd (add self t))) k = map_of (data self) k"
    using eq by (simp add: update_conv')
next
  assume "\<exists>e. fst (add self t) = Inl e"
  then show "snd (add self t) = self" by (auto dest: add_failure_keeps_manager)
qed

text \<open>
  Claim C7 on the table of scenario S4: added to a fresh manager, added a second time,
  and added after the recovery has started.
\<close>

theorem add_registers_or_fails_witness:
  "add TableManager_init example_table
     = (Inr example_table, TableManager_init\<lparr>data := [(''T'', example_table)]\<rparr>)
   \<and> add (TableManager_init\<lparr>data := [(''T'', example_table)]\<rparr>) example_table
     = (Inl ValueError, TableManager_init\<lparr>data := [(''T'', example_table)]\<rparr>)
   \<and> add (TableManager_init\<lparr>recovery_started := True\<rparr>) example_table
     = (Inl RuntimeError, TableManager_init\<lparr>recovery_started := True\<rparr>)"
  using add_registers_or_fails [of TableManager_init example_table "''T''"]
    add_registers_or_fails
      [of "TableManager_init\<lparr>data := [(''T'', example_table)]\<rparr>" example_table "''T''"]
    add_registers_or_fails
      [of "TableManager_init\<lparr>recovery_started := True\<rparr>" example_table "''T''"]
  by (simp add: TableManager_init_def example_table_def)

section \<open>Properties of the topic manager\<close>

lemma add_pending_tasks_calls:
  "calls (add_pending_tasks self m chans) = calls self @ map PutPendingTask chans"
  by (induction chans arbitrary: self) auto

lemma add_pending_tasks_pending:
  "pending_tasks (add_pending_tasks self m chans) = pending_tasks self @ map (\<lambda>c. (c, m)) chans"
  by (induction chans arbitrary: self) auto

text \<open>
  Claim C6: for a message \<open>m\<close> with \<open>K\<close> channels subscribed to its topic,
  \<open>on_message\<close> increments the reference count by exactly \<open>K\<close>, in one call of
  \<open>incref_bulk\<close> that comes before every enqueueing of a delivery: the calls it makes
  are the bulk increment followed by one \<open>put\<close> per channel, and every delivery unit
  it enqueues holds the message with the count already incremented. (With no channel it
  enqueues nothing and \<open>asyncio.wait\<close> raises on the empty list.)
\<close>

theorem on_message_increfs_before_delivery:
  assumes "on_message self m = (r, m', self')"
    and "chans = subscribed self (msg_topic m)"
  shows "refcount m' = refcount m + length chans
    \<and> calls self' = calls self @ IncrefBulk (length chans) # map PutPendingTask chans
    \<and> pending_tasks self' = pending_tasks self @ map (\<lambda>c. (c, m')) chans
    \<and> (r = None \<longleftrightarrow> chans \<noteq> [])"
  using assms
  by (auto simp add: on_message_def get_channels_for_topic_def subscribed_def incref_bulk_def
      Let_def add_pending_tasks_calls add_pending_tasks_pending split: option.splits if_splits)

text \<open>
  Claim C6 on scenario S2: two channels subscribe to topic \<open>X\<close>; the count of the
  message goes from 0 to 2, and both delivery units hold the message with count 2.
\<close>

theorem on_message_increfs_before_delivery_witness:
  "on_message
     \<lparr>topicmap = [''X'' \<mapsto> [example_topic, example_topic\<lparr>is_iterator := True\<rparr>]],
      pending_tasks = [], calls = []\<rparr> example_message
   = (None, example_message\<lparr>refcount := 2\<rparr>,
      \<lparr>topicmap = [''X'' \<mapsto> [example_topic, example_topic\<lparr>is_iterator := True\<rparr>]],
       pending_tasks = [(example_topic, example_message\<lparr>refcount := 2\<rparr>),
                        (example_topic\<lparr>is_iterator := True\<rparr>, example_message\<lparr>refcount := 2\<rparr>)],
       calls = [IncrefBulk 2, PutPendingTask example_topic,
                PutPendingTask (example_topic\<lparr>is_iterator := True\<rparr>)]\<rparr>)
   \<and> refcount (example_message\<lparr>refcount := 2\<rparr>) = refcount example_message + 2"
proof -
  let ?tm = "\<lparr>topicmap = [''X'' \<mapsto> [example_topic, example_topic\<lparr>is_iterator := True\<rparr>]],
      pending_tasks = [], calls = []\<rparr>"
  have ev: "on_message ?tm example_message
   = (None, example_message\<lparr>refcount := 2\<rparr>,
      \<lparr>topicmap = [''X'' \<mapsto> [example_topic, example_topic\<lparr>is_iterator := True\<rparr>]],
       pending_tasks = [(example_topic, example_message\<lparr>refcount := 2\<rparr>),
                        (example_topic\<lparr>is_iterator := True\<rparr>, example_message\<lparr>refcount := 2\<rparr>)],
       calls = [IncrefBulk 2, PutPendingTask example_topic,
                PutPendingTask (example_topic\<lparr>is_iterator := True\<rparr>)]\<rparr>)"
    by (simp add: on_message_def get_channels_for_topic_def incref_bulk_def Let_def
        example_message_def)
  have sub: "[example_topic, example_topic\<lparr>is_iterator := True\<rparr>]
       = subscribed ?tm (msg_topic example_message)"
    by (simp add: subscribed_def example_message_def)
  from on_message_increfs_before_delivery [OF ev sub] ev show ?thesis by simp
qed

section \<open>Properties of the attachments\<close>

lemma buffer_at_attachments_for [simp]:
  "buffer_at (snd (attachments_for self tp off)) tp off = None"
  by (simp add: attachments_for_def buffer_at_def Let_def)

lemma fst_attachments_for: "fst (attachments_for self tp off) = buffer_at self tp off"
  by (simp add: attachments_for_def buffer_at_def inner_dict_def Let_def split: option.splits)

lemma sent_attachments_for [simp]: "sent (snd (attachments_for self tp off)) = sent self"
  by (simp add: attachments_for_def Let_def)

lemma publish_message_pending:
  "publish_message self fut = Inr self' \<Longrightarrow> pending self' = pending self"
  by (auto simp add: publish_message_def split: sum.splits)

lemma publish_message_sent:
  "publish_message self fut = Inr self' \<Longrightarrow> map snd (sent self') = map snd (sent self) @ [fut]"
  by (auto simp add: publish_message_def split: sum.splits)

lemma publish_each_pending [simp]: "pending (snd (publish_each self futs)) = pending self"
  by (induction futs arbitrary: self) (auto split: sum.splits dest: publish_message_pending)

lemma publish_each_sent:
  "\<exists>ds. prefix ds futs
     \<and> map snd (sent (snd (publish_each self futs))) = map snd (sent self) @ ds
     \<and> (fst (publish_each self futs) = None \<longrightarrow> ds = futs)"
proof (induction futs arbitrary: self)
  case Nil
  show ?case by (rule exI [of _ "[]"]) simp
next
  case (Cons fut futs)
  show ?case
  proof (cases "publish_message self fut")
    case (Inl e)
    then show ?thesis by (intro exI [of _ "[]"]) simp
  next
    case (Inr self')
    from Cons.IH [of self'] obtain ds where
      p: "prefix ds futs" and
      m: "map snd (sent (snd (publish_each self' futs))) = map snd (sent self') @ ds" and
      f: "fst (publish_each self' futs) = None \<longrightarrow> ds = futs"
      by (elim exE conjE)
    have e: "publish_each self (fut # futs) = publish_each self' futs"
      using Inr by simp
    have "prefix (fut # ds) (fut # futs)" using p by simp
    moreover have "map snd (sent (snd (publish_each self (fut # futs))))
        = map snd (sent self) @ (fut # ds)"
      unfolding e using m publish_message_sent [OF Inr] by simp
    moreover have "fst (publish_each self (fut # futs)) = None \<longrightarrow> fut # ds = fut # futs"
      unfolding e using f by simp
    ultimately show ?thesis by (intro exI [of _ "fut # ds"] conjI)
  qed
qed

lemma published_since_append:
  "map snd (sent after) = map snd (sent before) @ xs \<Longrightarrow> published_since before after = xs"
proof -
  assume h: "map snd (sent after) = map snd (sent before) @ xs"
  have "length (sent before) = length (map snd (sent before))" by simp
  then show ?thesis unfolding published_since_def h by simp
qed

lemma commit_eq:
  "commit self tp off =
     (if stored self tp off \<noteq> []
      then publish_each (snd (attachments_for self tp off)) (stored self tp off)
      else (None, snd (attachments_for self tp off)))"
proof (cases "attachments_for self tp off")
  case (Pair attached self')
  then have "buffer_at self tp off = attached"
    using fst_attachments_for [of self tp off] by simp
  with Pair show ?thesis
    by (cases attached) (simp_all add: commit_def stored_def)
qed

lemma commit_pending:
  "pending (snd (commit self tp off)) = pending (snd (attachments_for self tp off))"
  by (simp add: commit_eq)

lemma buffer_at_commit: "buffer_at (snd (commit self tp off)) tp off = None"
proof -
  have "buffer_at (snd (commit self tp off)) tp off
      = buffer_at (snd (attachments_for self tp off)) tp off"
    by (simp add: buffer_at_def commit_pending)
  then show ?thesis by simp
qed

lemma commit_sent:
  "\<exists>ds. prefix ds (stored self tp off)
     \<and> map snd (sent (snd (commit self tp off))) = map snd (sent self) @ ds
     \<and> (fst (commit self tp off) = None \<longrightarrow> ds = stored self tp off)"
proof (cases "stored self tp off = []")
  case True
  then show ?thesis by (simp add: commit_eq)
next
  case False
  then show ?thesis
    using publish_each_sent [of "stored self tp off" "snd (attachments_for self tp off)"]
    by (simp add: commit_eq)
qed

lemma commit_absent_publishes_nothing:
  "buffer_at self tp off = None \<Longrightarrow>
     fst (commit self tp off) = None \<and> sent (snd (commit self tp off)) = sent self"
  by (simp add: commit_eq stored_def)

lemma stored_attachments_for [simp]: "stored (snd (attachments_for self tp off)) tp off = []"
  by (simp add: stored_def)

lemma stored_cong: "pending self' = pending self \<Longrightarrow> stored self' tp off = stored self tp off"
  by (simp add: stored_def buffer_at_def)

lemma step_task_Started:
  "step_task self (Started tp off) =
     (snd (attachments_for self tp off),
      if stored self tp off \<noteq> [] then Publishing (stored self tp off) else Finished None)"
proof (cases "attachments_for self tp off")
  case (Pair attached self')
  then have "buffer_at self tp off = attached"
    using fst_attachments_for [of self tp off] by simp
  with Pair show ?thesis
    by (cases attached) (simp_all add: stored_def)
qed

lemma step_task_in_flight:
  assumes "commits_key tp off task" and "step_task self task = (self', task')"
  shows "mset (map snd (sent self')) + mset (remaining task') + mset (stored self' tp off)
           \<subseteq># mset (map snd (sent self)) + mset (remaining task) + mset (stored self tp off)
         \<and> commits_key tp off task' \<and> prefix (sent self) (sent self')"
proof (cases task)
  case (Started tp' off')
  with assms(1) have k: "tp' = tp" "off' = off" by simp_all
  from assms(2) show ?thesis
    unfolding Started k step_task_Started by (auto split: if_splits)
next
  case (Publishing futs)
  show ?thesis
  proof (cases futs)
    case Nil
    with assms(2) Publishing show ?thesis by auto
  next
    case (Cons fut rest)
    show ?thesis
    proof (cases "publish_message self fut")
      case (Inl e)
      with assms(2) Publishing Cons show ?thesis by auto
    next
      case (Inr s1)
      with assms(2) Publishing Cons have e: "self' = s1" "task' = Publishing rest" by auto
      have "stored s1 tp off = stored self tp off"
        using publish_message_pending [OF Inr] by (rule stored_cong)
      moreover have "sent s1 = sent self @ [(fst (last (sent s1)), fut)]"
        using Inr by (auto simp add: publish_message_def split: sum.splits)
      ultimately show ?thesis
        unfolding e Publishing Cons using publish_message_sent [OF Inr]
        by (auto simp add: prefix_def)
    qed
  qed
next
  case (Finished r)
  with assms(2) show ?thesis by auto
qed

lemma sum_list_update_mset:
  "i < length xs \<Longrightarrow>
     (\<Sum>x\<leftarrow>xs[i := y]. (g x :: 'b multiset)) + g (xs ! i) = (\<Sum>x\<leftarrow>xs. g x) + g y"
proof (induction xs arbitrary: i)
  case Nil
  then show ?case by simp
next
  case (Cons x xs)
  then show ?case by (cases i) (auto simp add: ac_simps)
qed

lemma step_in_flight:
  assumes "\<forall>t \<in> set tasks. commits_key tp off t" and "i < length tasks"
    and "step_task self (tasks ! i) = (self', task')"
  shows "in_flight self' (tasks[i := task']) tp off \<subseteq># in_flight self tasks tp off
         \<and> (\<forall>t \<in> set (tasks[i := task']). commits_key tp off t)
         \<and> prefix (sent self) (sent self')"
proof -
  let ?g = "\<lambda>t. mset (remaining t)"
  have key: "commits_key tp off (tasks ! i)" using assms(1,2) by simp
  from step_task_in_flight [OF key assms(3)] have
    le: "mset (map snd (sent self')) + ?g task' + mset (stored self' tp off)
           \<subseteq># mset (map snd (sent self)) + ?g (tasks ! i) + mset (stored self tp off)"
    and k': "commits_key tp off task'" and p: "prefix (sent self) (sent self')"
    by simp_all
  have upd: "(\<Sum>t\<leftarrow>tasks[i := task']. ?g t) + ?g (tasks ! i) = (\<Sum>t\<leftarrow>tasks. ?g t) + ?g task'"
    using assms(2) by (rule sum_list_update_mset)
  have "in_flight self' (tasks[i := task']) tp off + (?g (tasks ! i) + ?g task')
      = (mset (map snd (sent self')) + ?g task' + mset (stored self' tp off))
        + ((\<Sum>t\<leftarrow>tasks[i := task']. ?g t) + ?g (tasks ! i))"
    by (simp add: in_flight_def ac_simps)
  also have "\<dots> \<subseteq># (mset (map snd (sent self)) + ?g (tasks ! i) + mset (stored self tp off))
        + ((\<Sum>t\<leftarrow>tasks[i := task']. ?g t) + ?g (tasks ! i))"
    using le by (rule mset_subset_eq_mono_add) simp
  also have "\<dots> = in_flight self tasks tp off + (?g (tasks ! i) + ?g task')"
    unfolding upd by (simp add: in_flight_def ac_simps)
  finally have "in_flight self' (tasks[i := task']) tp off \<subseteq># in_flight self tasks tp off"
    by simp
  moreover have "\<forall>t \<in> set (tasks[i := task']). commits_key tp off t"
    using assms(1) k' by (auto dest: set_update_subset_insert [THEN subsetD])
  ultimately show ?thesis using p by simp
qed

lemma run_schedule_in_flight:
  "\<forall>t \<in> set tasks. commits_key tp off t \<Longrightarrow>
     in_flight (fst (run_schedule self tasks sched)) (snd (run_schedule self tasks sched)) tp off
       \<subseteq># in_flight self tasks tp off
     \<and> prefix (sent self) (sent (fst (run_schedule self tasks sched)))"
proof (induction sched arbitrary: self tasks)
  case Nil
  then show ?case by simp
next
  case (Cons i sched)
  show ?case
  proof (cases "i < length tasks")
    case False
    with Cons show ?thesis by simp
  next
    case True
    obtain self' task' where st: "step_task self (tasks ! i) = (self', task')"
      by (cases "step_task self (tasks ! i)") auto
    from step_in_flight [OF Cons.prems True st] have
      a: "in_flight self' (tasks[i := task']) tp off \<subseteq># in_flight self tasks tp off"
      and b: "\<forall>t \<in> set (tasks[i := task']). commits_key tp off t"
      and c: "prefix (sent self) (sent self')"
      by simp_all
    have e: "run_schedule self tasks (i # sched) = run_schedule self' (tasks[i := task']) sched"
      using True st by simp
    from Cons.IH [OF b, of self'] a c show ?thesis
      unfolding e by (auto intro: subset_mset.order_trans prefix_order.order_trans)
  qed
qed

lemma run_schedule_finished:
  "run_schedule self [Finished r] (replicate n 0) = (self, [Finished r])"
  by (induction n) simp_all

lemma run_schedule_publishing:
  "run_schedule self [Publishing futs] (replicate (Suc (length futs)) 0)
     = (snd (publish_each self futs), [Finished (fst (publish_each self futs))])"
proof (induction futs arbitrary: self)
  case Nil
  show ?case by simp
next
  case (Cons fut futs)
  show ?case
  proof (cases "publish_message self fut")
    case (Inl e)
    then show ?thesis using run_schedule_finished [of self "Some e" "Suc (length futs)"] by simp
  next
    case (Inr self')
    then show ?thesis using Cons.IH [of self'] by simp
  qed
qed

text \<open>
  A \<open>commit\<close> coroutine that runs alone, step by step, is \<open>commit\<close>: the steps are
  the pop, one per publish, and the end.
\<close>

lemma run_schedule_commit:
  "run_schedule self [Started tp off] (replicate (Suc (Suc (length (stored self tp off)))) 0)
     = (snd (commit self tp off), [Finished (fst (commit self tp off))])"
proof (cases "stored self tp off = []")
  case True
  then show ?thesis
    using run_schedule_finished [of "snd (attachments_for self tp off)" None 1]
    by (simp add: step_task_Started commit_eq del: step_task.simps(1))
next
  case False
  then show ?thesis
    using run_schedule_publishing [of "snd (attachments_for self tp off)" "stored self tp off"]
    by (simp add: step_task_Started commit_eq del: step_task.simps(1))
qed

text \<open>
  Any number of \<open>commit\<close> coroutines for one topic-partition and offset, run in any
  interleaving: what they publish together is, as a multiset, within what the buffer
  held, so no future message is published more often than it was put.
\<close>

lemma concurrent_commits_publish_at_most_once:
  "mset (published_since self (fst (run_schedule self (replicate n (Started tp off)) sched)))
     \<subseteq># mset (stored self tp off)"
proof -
  let ?tasks = "replicate n (Started tp off)"
  let ?self' = "fst (run_schedule self ?tasks sched)"
  let ?tasks' = "snd (run_schedule self ?tasks sched)"
  have "\<forall>t \<in> set ?tasks. commits_key tp off t" by simp
  from run_schedule_in_flight [OF this, of self sched] have
    le: "in_flight ?self' ?tasks' tp off \<subseteq># in_flight self ?tasks tp off"
    and p: "prefix (sent self) (sent ?self')"
    by simp_all
  from p obtain xs where xs: "sent ?self' = sent self @ xs" by (auto simp add: prefix_def)
  then have ps: "published_since self ?self' = map snd xs"
    by (simp add: published_since_def)
  have z: "sum_list (replicate n ({#} :: future_message multiset)) = {#}"
    by (induction n) simp_all
  have "mset (map snd (sent ?self')) \<subseteq># in_flight ?self' ?tasks' tp off"
    by (simp add: in_flight_def)
  from this le have "mset (map snd (sent ?self')) \<subseteq># in_flight self ?tasks tp off"
    by (rule subset_mset.order_trans)
  then have "mset (map snd (sent self)) + mset (map snd xs)
      \<subseteq># mset (map snd (sent self)) + mset (stored self tp off)"
    by (simp add: in_flight_def z xs)
  then show ?thesis by (simp add: ps)
qed

text \<open>
  \<open>put\<close> appends its future message, once, to the list of its topic-partition and
  offset.
\<close>

lemma stored_put:
  "stored (snd (put self m chan k v p)) (msg_tp m) (msg_offset m)
     = stored self (msg_tp m) (msg_offset m) @ [fst (put self m chan k v p)]"
  by (simp add: put_def stored_def buffer_at_def inner_dict_def Let_def split: option.splits)

lemma example_buffer_eval:
  "buffer_at example_buffer (TP ''A'' 0) 5 = Some [example_fm_a]
   \<and> buffer_at example_buffer (TP ''A'' 0) 7 = Some [example_fm_b]
   \<and> sent example_buffer = []"
  by (simp add: example_buffer_def put_def Attachments_init_def example_source_def msg_tp_def
      inner_dict_def buffer_at_def Let_def example_fm_a_def example_fm_b_def)

text \<open>
  Claim C1: after \<open>commit(tp, off)\<close> the buffer has no entry at \<open>buffer[tp][off]\<close>,
  whether or not a publish raised; the entry is gone after \<open>_attachments_for\<close>, the
  first step of \<open>commit\<close>, and the publishes do not touch the buffer. A future
  message that \<open>put\<close> enqueued is in the list once; \<open>commit\<close> publishes a prefix of
  the list, in order, and all of it when no publish raises. A second \<open>commit(tp, off)\<close>
  publishes nothing; and commits for the same key that interleave at their awaits
  publish, together, no message more often than the buffer held it.
\<close>

theorem commit_removes_entry_and_publishes_once:
  "buffer_at (snd (commit self tp off)) tp off = None
   \<and> buffer_at (snd (attachments_for self tp off)) tp off = None
   \<and> pending (snd (commit self tp off)) = pending (snd (attachments_for self tp off))
   \<and> stored (snd (put self m chan k v p)) (msg_tp m) (msg_offset m)
       = stored self (msg_tp m) (msg_offset m) @ [fst (put self m chan k v p)]
   \<and> prefix (published_since self (snd (commit self tp off))) (stored self tp off)
   \<and> (fst (commit self tp off) = None \<longrightarrow>
        published_since self (snd (commit self tp off)) = stored self tp off)
   \<and> fst (commit (snd (commit self tp off)) tp off) = None
   \<and> published_since (snd (commit self tp off)) (snd (commit (snd (commit self tp off)) tp off)) = []
   \<and> mset (published_since self (fst (run_schedule self (replicate n (Started tp off)) sched)))
        \<subseteq># mset (stored self tp off)"
proof -
  from commit_sent [of self tp off] obtain ds where
    p: "prefix ds (stored self tp off)" and
    m: "map snd (sent (snd (commit self tp off))) = map snd (sent self) @ ds" and
    f: "fst (commit self tp off) = None \<longrightarrow> ds = stored self tp off"
    by (elim exE conjE)
  have ps: "published_since self (snd (commit self tp off)) = ds"
    using m by (rule published_since_append)
  have again: "fst (commit (snd (commit self tp off)) tp off) = None
      \<and> sent (snd (commit (snd (commit self tp off)) tp off)) = sent (snd (commit self tp off))"
    using buffer_at_commit by (rule commit_absent_publishes_nothing)
  then have "published_since (snd (commit self tp off))
      (snd (commit (snd (commit self tp off)) tp off)) = []"
    by (simp add: published_since_def)
  with p f ps again show ?thesis
    by (simp add: buffer_at_commit commit_pending stored_put
        concurrent_commits_publish_at_most_once)
qed

text \<open>
  Claim C1 on scenario S1: the commit of offset 5 publishes the message attached to
  offset 5, once, and leaves the one attached to offset 7.
\<close>

theorem commit_removes_entry_and_publishes_once_witness:
  "fst (commit example_buffer (TP ''A'' 0) 5) = None
   \<and> published_since example_buffer (snd (commit example_buffer (TP ''A'' 0) 5)) = [example_fm_a]
   \<and> buffer_at (snd (commit example_buffer (TP ''A'' 0) 5)) (TP ''A'' 0) 5 = None
   \<and> buffer_at (snd (commit example_buffer (TP ''A'' 0) 5)) (TP ''A'' 0) 7 = Some [example_fm_b]"
proof -
  have ok: "fst (commit example_buffer (TP ''A'' 0) 5) = None"
    by (simp add: commit_eq stored_def example_buffer_eval example_fm_a_def
        publish_message_def get_topic_name_def example_topic_def)
  have st: "stored example_buffer (TP ''A'' 0) 5 = [example_fm_a]"
    by (simp add: stored_def example_buffer_eval)
  have other: "buffer_at (snd (commit example_buffer (TP ''A'' 0) 5)) (TP ''A'' 0) 7
      = Some [example_fm_b]"
    using example_buffer_eval
    by (simp add: buffer_at_def commit_pending attachments_for_def inner_dict_def Let_def
        split: option.splits)
  from commit_removes_entry_and_publishes_once [of example_buffer "TP ''A'' 0" 5] ok st other
  show ?thesis by simp
qed

lemma worker_revocation_keeps_attachments:
  "w_attachments (snd (worker_on_partitions_revoked env w revoked)) = w_attachments w"
  by (simp add: worker_on_partitions_revoked_def Let_def split: prod.splits)

text \<open>
  Claim C2, as stated, fails: \<open>Attachments\<close> has no callback for revocation, and the
  callbacks of the topic manager and the table manager do not touch the buffer. After
  the revocation of partition 0 of topic \<open>A\<close> the attachment at offset 5 is still
  there.
\<close>

theorem revocation_keeps_pending_attachment:
  "buffer_at (w_attachments (snd (worker_on_partitions_revoked example_env example_worker
       [TP ''A'' 0]))) (TP ''A'' 0) 5 = Some [example_fm_a]"
  by (simp add: worker_revocation_keeps_attachments example_worker_def example_buffer_eval)

text \<open>
  Claim C2, amended: when a topic-partition is revoked, every still-pending attachment
  for it stays in the buffer and none of its future messages is published by the
  revocation; a later \<open>commit(tp, off)\<close> finds and treats it as if nothing had been
  revoked.
\<close>

theorem revocation_leaves_attachments_unpublished:
  "buffer_at (w_attachments (snd (worker_on_partitions_revoked env w revoked))) tp off
     = buffer_at (w_attachments w) tp off
   \<and> published_since (w_attachments w)
       (w_attachments (snd (worker_on_partitions_revoked env w revoked))) = []
   \<and> commit (w_attachments (snd (worker_on_partitions_revoked env w revoked))) tp off
     = commit (w_attachments w) tp off"
  by (simp add: worker_revocation_keeps_attachments published_since_def)

section \<open>Properties of the table manager: offsets and recovery\<close>

lemma offsets_le_refl [simp]: "offsets_le self self"
  by (simp add: offsets_le_def)

lemma offsets_le_trans: "offsets_le a b \<Longrightarrow> offsets_le b c \<Longrightarrow> offsets_le a c"
  unfolding offsets_le_def by (meson order_trans)

lemma offsets_le_same: "table_offsets self' = table_offsets self \<Longrightarrow> offsets_le self self'"
  by (simp add: offsets_le_def)

lemma offsets_le_max:
  "offsets_le self
     (self\<lparr>table_offsets := (table_offsets self)(tp \<mapsto> max (get_offset (table_offsets self) tp) v)\<rparr>)"
  by (simp add: offsets_le_def get_offset_def)

lemma get_offset_upd: "get_offset (m(k \<mapsto> v)) tp = (if tp = k then v else get_offset m tp)"
  by (simp add: get_offset_def)

lemma sync_offsets_mono: "offsets_le self (sync_offsets self offs)"
proof (induction offs arbitrary: self)
  case Nil
  show ?case by simp
next
  case (Cons entry rest)
  obtain tp offset where e: "entry = (tp, offset)" by (cases entry)
  show ?case
  proof (cases "0 \<le> offset")
    case True
    then show ?thesis
      unfolding e using offsets_le_trans [OF offsets_le_max Cons.IH] by simp
  next
    case False
    then show ?thesis unfolding e using Cons.IH by simp
  qed
qed

lemma sync_persisted_offsets_mono: "offsets_le self (sync_persisted_offsets self t tps)"
proof (induction tps arbitrary: self)
  case Nil
  show ?case by simp
next
  case (Cons tp tps)
  show ?case
  proof (cases "persisted_offset t tp")
    case None
    then show ?thesis using Cons.IH by simp
  next
    case (Some po)
    then show ?thesis using offsets_le_trans [OF offsets_le_max Cons.IH] by simp
  qed
qed

lemma sync_offsets_value:
  "distinct (map fst offs) \<Longrightarrow>
     get_offset (table_offsets (sync_offsets self offs)) tp =
       (case map_of offs tp of
          None \<Rightarrow> get_offset (table_offsets self) tp
        | Some offset \<Rightarrow>
            if 0 \<le> offset then max (get_offset (table_offsets self) tp) offset
            else get_offset (table_offsets self) tp)"
proof (induction offs arbitrary: self)
  case Nil
  show ?case by simp
next
  case (Cons entry rest)
  obtain tp' offset where e: "entry = (tp', offset)" by (cases entry)
  from Cons.prems have d: "distinct (map fst rest)" and fresh: "tp' \<notin> fst ` set rest"
    by (simp_all add: e)
  from fresh have none: "map_of rest tp' = None" by (simp add: map_of_eq_None_iff)
  note IH = Cons.IH [OF d]
  show ?case
  proof (cases "0 \<le> offset")
    case False
    then show ?thesis unfolding e using IH [of self] none by simp
  next
    case True
    let ?self1 = "self\<lparr>table_offsets :=
        (table_offsets self)(tp' \<mapsto> max (get_offset (table_offsets self) tp') offset)\<rparr>"
    have step: "sync_offsets self ((tp', offset) # rest) = sync_offsets ?self1 rest"
      using True by simp
    show ?thesis
    proof (cases "tp = tp'")
      case True
      then show ?thesis
        unfolding e step using IH [of ?self1] none \<open>0 \<le> offset\<close>
        by (simp add: get_offset_upd split: option.splits)
    next
      case False
      then show ?thesis
        unfolding e step using IH [of ?self1]
        by (simp add: get_offset_upd split: option.splits)
    qed
  qed
qed

lemma sync_persisted_offsets_value:
  "get_offset (table_offsets (sync_persisted_offsets self t tps)) tp =
     (if tp \<in> set tps
      then (case persisted_offset t tp of
              None \<Rightarrow> get_offset (table_offsets self) tp
            | Some po \<Rightarrow> max (get_offset (table_offsets self) tp) po)
      else get_offset (table_offsets self) tp)"
proof (induction tps arbitrary: self)
  case Nil
  show ?case by simp
next
  case (Cons tp' tps)
  show ?case
  proof (cases "persisted_offset t tp'")
    case None
    then show ?thesis using Cons.IH [of self] by auto
  next
    case (Some po)
    let ?self1 = "self\<lparr>table_offsets :=
        (table_offsets self)(tp' \<mapsto> max (get_offset (table_offsets self) tp') po)\<rparr>"
    have step: "sync_persisted_offsets self t (tp' # tps) = sync_persisted_offsets ?self1 t tps"
      using Some by simp
    show ?thesis
      unfolding step using Cons.IH [of ?self1] Some
      by (auto simp add: get_offset_upd split: option.splits)
  qed
qed

lemma offsets_grow_refl [simp]: "offsets_grow self self"
proof -
  have "self = self\<lparr>table_offsets := table_offsets self\<rparr>" by simp
  then show ?thesis unfolding offsets_grow_def by (intro conjI exI [of _ "table_offsets self"]) simp_all
qed

lemma offsets_grow_trans: "offsets_grow a b \<Longrightarrow> offsets_grow b c \<Longrightarrow> offsets_grow a c"
proof -
  assume ab: "offsets_grow a b" and bc: "offsets_grow b c"
  from ab obtain m where m: "b = a\<lparr>table_offsets := m\<rparr>" by (auto simp add: offsets_grow_def)
  from bc obtain m' where m': "c = b\<lparr>table_offsets := m'\<rparr>" by (auto simp add: offsets_grow_def)
  have "c = a\<lparr>table_offsets := m'\<rparr>" unfolding m' m by simp
  moreover have "offsets_le a c"
    using ab bc by (auto simp add: offsets_grow_def intro: offsets_le_trans)
  ultimately show ?thesis unfolding offsets_grow_def by blast
qed

lemma offsets_grow_le: "offsets_grow a b \<Longrightarrow> offsets_le a b"
  by (simp add: offsets_grow_def)

lemma offsets_grow_fields:
  "offsets_grow a b \<Longrightarrow>
     events b = events a \<and> standbys b = standbys a \<and> data b = data a
     \<and> channels b = channels a \<and> changelogs b = changelogs a \<and> revivers b = revivers a
     \<and> ongoing_recovery b = ongoing_recovery a \<and> recovery_started b = recovery_started a
     \<and> recovery_completed b = recovery_completed a"
  by (auto simp add: offsets_grow_def)

lemma offsets_grow_max:
  "offsets_grow self
     (self\<lparr>table_offsets := (table_offsets self)(tp \<mapsto> max (get_offset (table_offsets self) tp) v)\<rparr>)"
  unfolding offsets_grow_def using offsets_le_max by blast

lemma sync_offsets_grow: "offsets_grow self (sync_offsets self offs)"
proof (induction offs arbitrary: self)
  case Nil
  show ?case by simp
next
  case (Cons entry rest)
  obtain tp offset where e: "entry = (tp, offset)" by (cases entry)
  show ?case
  proof (cases "0 \<le> offset")
    case True
    then show ?thesis
      unfolding e using offsets_grow_trans [OF offsets_grow_max Cons.IH] by simp
  next
    case False
    then show ?thesis unfolding e using Cons.IH by simp
  qed
qed

lemma sync_persisted_offsets_grow: "offsets_grow self (sync_persisted_offsets self t tps)"
proof (induction tps arbitrary: self)
  case Nil
  show ?case by simp
next
  case (Cons tp tps)
  show ?case
  proof (cases "persisted_offset t tp")
    case None
    then show ?thesis using Cons.IH by simp
  next
    case (Some po)
    then show ?thesis using offsets_grow_trans [OF offsets_grow_max Cons.IH] by simp
  qed
qed

lemma sync_all_grow: "offsets_grow self (sync_all env self rs)"
proof (induction rs arbitrary: self)
  case Nil
  show ?case by simp
next
  case (Cons r rs)
  show ?case using offsets_grow_trans [OF sync_offsets_grow Cons.IH] by simp
qed

lemma create_reviver_grow: "offsets_grow self (snd (create_reviver self t tps))"
  using sync_persisted_offsets_grow
  by (simp add: create_reviver_def Let_def split: option.splits)

lemma create_reviver_not_standby:
  "fst (create_reviver self t tps) = Inr r \<Longrightarrow> \<not> rd_standby r"
  by (auto simp add: create_reviver_def Let_def split: option.splits)

lemma create_revivers_grow: "offsets_grow self (snd (create_revivers self ts tps))"
proof (induction ts arbitrary: self)
  case Nil
  show ?case by simp
next
  case (Cons t ts)
  obtain r1 s1 where c1: "create_reviver self t tps = (r1, s1)" by (cases "create_reviver self t tps")
  have g1: "offsets_grow self s1" using create_reviver_grow [of self t tps] c1 by simp
  show ?case
  proof (cases r1)
    case (Inl e)
    with c1 g1 show ?thesis by simp
  next
    case (Inr r)
    obtain r2 s2 where c2: "create_revivers s1 ts tps = (r2, s2)"
      by (cases "create_revivers s1 ts tps")
    have "offsets_grow s1 s2" using Cons.IH [of s1] c2 by simp
    with g1 have "offsets_grow self s2" by (rule offsets_grow_trans)
    with c1 c2 Inr show ?thesis by (cases r2) simp_all
  qed
qed

lemma create_revivers_not_standby:
  "fst (create_revivers self ts tps) = Inr rs \<Longrightarrow> filter rd_standby rs = []"
proof (induction ts arbitrary: self rs)
  case Nil
  then show ?case by simp
next
  case (Cons t ts)
  obtain r1 s1 where c1: "create_reviver self t tps = (r1, s1)" by (cases "create_reviver self t tps")
  obtain r2 s2 where c2: "create_revivers s1 ts tps = (r2, s2)"
    by (cases "create_revivers s1 ts tps")
  from Cons.prems c1 c2 obtain r rs' where
    r: "r1 = Inr r" and rs': "r2 = Inr rs'" and rs: "rs = r # rs'"
    by (cases r1; cases r2) auto
  have "\<not> rd_standby r" using create_reviver_not_standby [of self t tps r] c1 r by simp
  moreover have "filter rd_standby rs' = []" using Cons.IH [of s1 rs'] c2 rs' by simp
  ultimately show ?case by (simp add: rs)
qed

lemma quiet_refl [simp]: "quiet self self"
  by (simp add: quiet_def)

lemma quiet_trans: "quiet a b \<Longrightarrow> quiet b c \<Longrightarrow> quiet a c"
proof -
  assume ab: "quiet a b" and bc: "quiet b c"
  from ab obtain xs where xs: "events b = events a @ xs" "filter completes_recovery xs = []"
    by (auto simp add: quiet_def)
  from bc obtain ys where ys: "events c = events b @ ys" "filter completes_recovery ys = []"
    by (auto simp add: quiet_def)
  have "events c = events a @ (xs @ ys) \<and> filter completes_recovery (xs @ ys) = []"
    using xs ys by simp
  then have "\<exists>evs. events c = events a @ evs \<and> filter completes_recovery evs = []" by blast
  then show ?thesis using ab bc by (simp add: quiet_def)
qed

lemma quiet_grow: "offsets_grow a b \<Longrightarrow> quiet a b"
  by (auto simp add: quiet_def dest: offsets_grow_fields)

lemma quiet_emit: "filter completes_recovery evs = [] \<Longrightarrow> quiet self (emit self evs)"
  by (simp add: quiet_def emit_def)

lemma quiet_events_since:
  "quiet self self' \<Longrightarrow> filter completes_recovery (events_since self self') = []"
  by (auto simp add: quiet_def events_since_def)

lemma emit_fields [simp]:
  "table_offsets (emit self evs) = table_offsets self"
  "standbys (emit self evs) = standbys self"
  "data (emit self evs) = data self"
  "channels (emit self evs) = channels self"
  "changelogs (emit self evs) = changelogs self"
  "revivers (emit self evs) = revivers self"
  "recovery_completed (emit self evs) = recovery_completed self"
  "recovery_started (emit self evs) = recovery_started self"
  "ongoing_recovery (emit self evs) = ongoing_recovery self"
  "events (emit self evs) = events self @ evs"
  by (simp_all add: emit_def)

lemma table_values_emit [simp]: "table_values (emit self evs) = table_values self"
  by (simp add: table_values_def)

lemma offsets_le_emit [simp]: "offsets_le self (emit self evs)"
  by (simp add: offsets_le_def)

lemma quiet_reader_stops: "filter completes_recovery (map ReaderStop rs) = []"
  by (induction rs) simp_all

lemma quiet_reader_starts:
  "filter rd_standby rs = [] \<Longrightarrow> filter completes_recovery (map ReaderStart rs) = []"
  by (induction rs) (simp_all split: if_splits)

lemma quiet_table_assigned: "filter completes_recovery (map (\<lambda>t. TableAssigned t a) ts) = []"
  by (induction ts) simp_all

lemma quiet_table_revoked: "filter completes_recovery (map (\<lambda>t. TableRevoked t a) ts) = []"
  by (induction ts) simp_all

lemma update_channels_quiet: "quiet self (update_channels env self)"
  by (simp add: update_channels_def Let_def quiet_def table_values_def)

lemma update_channels_offsets [simp]:
  "table_offsets (update_channels env self) = table_offsets self"
  by (simp add: update_channels_def Let_def)

lemma on_recovery_started_quiet: "quiet self (on_recovery_started env self)"
proof -
  have "quiet self (self\<lparr>recovery_started := True\<rparr>)" by (simp add: quiet_def)
  from quiet_trans [OF this update_channels_quiet] show ?thesis
    by (simp add: on_recovery_started_def)
qed

lemma on_recovery_started_offsets [simp]:
  "table_offsets (on_recovery_started env self) = table_offsets self"
  by (simp add: on_recovery_started_def)

lemma start_revivers_quiet: "quiet self (snd (start_revivers self tps))"
proof (cases "create_revivers self (table_values self) tps")
  case (Pair res s1)
  have g: "offsets_grow self s1" using create_revivers_grow [of self "table_values self" tps] Pair by simp
  then have q: "quiet self s1" by (rule quiet_grow)
  show ?thesis
  proof (cases res)
    case (Inl e)
    with Pair q show ?thesis by (simp add: start_revivers_def)
  next
    case (Inr rs)
    have ns: "filter rd_standby rs = []"
      using create_revivers_not_standby [of self "table_values self" tps rs] Pair Inr by simp
    have "quiet s1 (s1\<lparr>revivers := Some rs\<rparr>)" by (simp add: quiet_def)
    moreover have "quiet (s1\<lparr>revivers := Some rs\<rparr>) (emit (s1\<lparr>revivers := Some rs\<rparr>) (map ReaderStart rs))"
      using ns by (intro quiet_emit quiet_reader_starts)
    ultimately have "quiet self (emit (s1\<lparr>revivers := Some rs\<rparr>) (map ReaderStart rs))"
      using q by (blast intro: quiet_trans)
    with Pair Inr show ?thesis by (simp add: start_revivers_def)
  qed
qed

lemma start_revivers_mono: "offsets_le self (snd (start_revivers self tps))"
proof (cases "create_revivers self (table_values self) tps")
  case (Pair res s1)
  have g: "offsets_le self s1"
    using create_revivers_grow [of self "table_values self" tps] Pair
    by (simp add: offsets_grow_le)
  then have "offsets_le self (emit (s1\<lparr>revivers := Some rs\<rparr>) evs)" for rs evs
    by (simp add: offsets_le_def)
  with Pair g show ?thesis by (cases res) (simp_all add: start_revivers_def)
qed

lemma finish_revivers_quiet: "quiet self (snd (finish_revivers env self rs))"
proof -
  have "quiet self (sync_all env self rs)" using sync_all_grow by (rule quiet_grow)
  moreover have "quiet (sync_all env self rs) (emit (sync_all env self rs) (map ReaderStop rs))"
    by (intro quiet_emit quiet_reader_stops)
  ultimately show ?thesis by (auto simp add: finish_revivers_def Let_def intro: quiet_trans)
qed

lemma finish_revivers_mono: "offsets_le self (snd (finish_revivers env self rs))"
  using offsets_grow_le [OF sync_all_grow, of self env rs]
  by (simp add: finish_revivers_def Let_def offsets_le_def)

lemma fst_finish_revivers:
  "fst (finish_revivers env self rs) = list_all (reader_recovered env) rs"
  by (simp add: finish_revivers_def Let_def)

lemma recover_start_quiet: "quiet self (snd (recover_start env self assigned))"
proof (cases "set (assigned_actives env) \<subseteq> set assigned")
  case False
  then show ?thesis by (simp add: recover_start_def Let_def)
next
  case True
  let ?s1 = "on_recovery_started env self"
  let ?s2 = "emit ?s1 (map (\<lambda>t. TableAssigned t assigned) (table_values ?s1))"
  have "quiet self ?s1" by (rule on_recovery_started_quiet)
  moreover have "quiet ?s1 ?s2" by (intro quiet_emit quiet_table_assigned)
  moreover have "quiet ?s2 (snd (start_revivers ?s2 (assigned_actives env)))"
    by (rule start_revivers_quiet)
  ultimately have "quiet self (snd (start_revivers ?s2 (assigned_actives env)))"
    by (blast intro: quiet_trans)
  with True show ?thesis by (simp add: recover_start_def Let_def)
qed

lemma recover_outcome_interrupted:
  "\<not> did_recover \<or> service_stopped env \<Longrightarrow>
     recover_outcome env self assigned standby_tps did_recover = (None, self\<lparr>revivers := None\<rparr>)"
  by (auto simp add: recover_outcome_def)

lemma recover_finish_interrupted:
  assumes "\<not> list_all (reader_recovered env) rs \<or> service_stopped env"
  shows "fst (recover_finish env self assigned standby_tps rs) = None
    \<and> quiet self (snd (recover_finish env self assigned standby_tps rs))
    \<and> revivers (snd (recover_finish env self assigned standby_tps rs)) = None"
proof (cases "finish_revivers env self rs")
  case (Pair did_recover s1)
  have d: "did_recover = list_all (reader_recovered env) rs"
    using fst_finish_revivers [of env self rs] Pair by simp
  have q: "quiet self s1" using finish_revivers_quiet [of self env rs] Pair by simp
  have "quiet s1 (s1\<lparr>revivers := None\<rparr>)" by (simp add: quiet_def)
  with q have "quiet self (s1\<lparr>revivers := None\<rparr>)" by (rule quiet_trans)
  moreover have "recover_finish env self assigned standby_tps rs = (None, s1\<lparr>revivers := None\<rparr>)"
    using assms Pair d by (simp add: recover_finish_def recover_outcome_interrupted)
  ultimately show ?thesis by simp
qed

lemma recover_split:
  "recover env self assigned =
     (case recover_start env self assigned of
        (Inl e, self1) \<Rightarrow> (Some e, self1)
      | (Inr table_revivers, self1) \<Rightarrow>
          recover_finish env self1 assigned (assigned_standbys env) table_revivers)"
proof (cases "set (assigned_actives env) \<subseteq> set assigned")
  case False
  then show ?thesis by (simp add: recover_def recover_start_def Let_def)
next
  case True
  let ?s2 = "emit (on_recovery_started env self)
      (map (\<lambda>t. TableAssigned t assigned) (table_values (on_recovery_started env self)))"
  obtain res s3 where st: "start_revivers ?s2 (assigned_actives env) = (res, s3)"
    by (cases "start_revivers ?s2 (assigned_actives env)")
  show ?thesis
  proof (cases res)
    case (Inl e)
    with True st show ?thesis
      by (simp add: recover_def recover_start_def recover_changelogs_def Let_def)
  next
    case (Inr rs)
    obtain d s4 where fin: "finish_revivers env s3 rs = (d, s4)"
      by (cases "finish_revivers env s3 rs")
    with True st Inr show ?thesis
      by (simp add: recover_def recover_start_def recover_changelogs_def recover_finish_def
          Let_def)
  qed
qed

lemma recover_eq:
  "fst (recover_start env self assigned) = Inr rs \<Longrightarrow>
     recover env self assigned =
       recover_finish env (snd (recover_start env self assigned)) assigned (assigned_standbys env) rs"
  by (cases "recover_start env self assigned") (simp add: recover_split)

lemma stop_standbys_loop_quiet: "quiet self (stop_standbys_loop env self rs)"
proof (induction rs arbitrary: self)
  case Nil
  show ?case by simp
next
  case (Cons r rs)
  let ?s1 = "emit self [ReaderStop r]"
  let ?s2 = "sync_offsets ?s1 (reader_offsets env r)"
  have a: "quiet self ?s1" by (intro quiet_emit) simp
  have b: "quiet ?s1 ?s2" using sync_offsets_grow by (rule quiet_grow)
  have c: "quiet ?s2 (stop_standbys_loop env ?s2 rs)" by (rule Cons.IH)
  from quiet_trans [OF a quiet_trans [OF b c]] show ?case by simp
qed

lemma stop_standbys_loop_mono: "offsets_le self (stop_standbys_loop env self rs)"
proof (induction rs arbitrary: self)
  case Nil
  show ?case by simp
next
  case (Cons r rs)
  let ?s1 = "emit self [ReaderStop r]"
  let ?s2 = "sync_offsets ?s1 (reader_offsets env r)"
  have a: "offsets_le self ?s1" by simp
  have b: "offsets_le ?s1 ?s2" using sync_offsets_grow by (rule offsets_grow_le)
  have c: "offsets_le ?s2 (stop_standbys_loop env ?s2 rs)" by (rule Cons.IH)
  from offsets_le_trans [OF a offsets_le_trans [OF b c]] show ?case by simp
qed

lemma stop_standbys_effect:
  "(\<exists>evs. events (stop_standbys env self) = events self @ evs
        \<and> filter completes_recovery evs = [])
   \<and> recovery_completed (stop_standbys env self) = recovery_completed self
   \<and> data (stop_standbys env self) = data self
   \<and> ongoing_recovery (stop_standbys env self) =
       ongoing_recovery (stop_standbys_loop env self (map snd (standbys self)))
   \<and> standbys (stop_standbys env self) = []"
  using stop_standbys_loop_quiet [of self env "map snd (standbys self)"]
  by (auto simp add: stop_standbys_def quiet_def)

lemma stop_standbys_mono: "offsets_le self (stop_standbys env self)"
  using stop_standbys_loop_mono [of self env "map snd (standbys self)"]
  by (simp add: stop_standbys_def offsets_le_def)

lemma interrupted_recovery:
  assumes "fst (recover_start env self assigned) = Inr table_revivers"
    and "\<not> list_all (reader_recovered env) table_revivers \<or> service_stopped env"
  shows "fst (recover env self assigned) = None
    \<and> recovery_completed (snd (recover env self assigned)) = recovery_completed self
    \<and> standbys (snd (recover env self assigned)) = standbys self
    \<and> filter completes_recovery (events_since self (snd (recover env self assigned))) = []
    \<and> revivers (snd (recover env self assigned)) = None"
proof -
  let ?s1 = "snd (recover_start env self assigned)"
  have e: "recover env self assigned
      = recover_finish env ?s1 assigned (assigned_standbys env) table_revivers"
    using assms(1) by (rule recover_eq)
  have q1: "quiet self ?s1" by (rule recover_start_quiet)
  from recover_finish_interrupted [OF assms(2), of ?s1 assigned "assigned_standbys env"]
  have r: "fst (recover env self assigned) = None"
    and q2: "quiet ?s1 (snd (recover env self assigned))"
    and v: "revivers (snd (recover env self assigned)) = None"
    unfolding e by simp_all
  from q1 q2 have q: "quiet self (snd (recover env self assigned))" by (rule quiet_trans)
  then have "filter completes_recovery (events_since self (snd (recover env self assigned))) = []"
    by (rule quiet_events_since)
  with q r v show ?thesis by (simp add: quiet_def)
qed

lemma quiet_ongoing: "quiet self (self\<lparr>ongoing_recovery := v\<rparr>)"
  by (simp add: quiet_def)

lemma step_recovery_reading:
  "ongoing_recovery self = Some (Reading a sb rs) \<Longrightarrow>
     step_recovery env self =
       (snd (recover_finish env self a sb rs))
         \<lparr>ongoing_recovery := Some (Completed (fst (recover_finish env self a sb rs)))\<rparr>"
  by (cases "recover_finish env self a sb rs") (simp add: step_recovery_def)

lemma step_recovery_completed:
  "ongoing_recovery self = Some (Completed r) \<Longrightarrow> step_recovery env self = self"
  by (simp add: step_recovery_def)

lemma await_recovery_reading_interrupted:
  assumes "ongoing_recovery self = Some (Reading a sb rs)"
    and "\<not> list_all (reader_recovered env) rs \<or> service_stopped env"
  shows "fst (await_recovery env self) = None \<and> quiet self (snd (await_recovery env self))"
proof -
  let ?f = "recover_finish env self a sb rs"
  let ?s1 = "(snd ?f)\<lparr>ongoing_recovery := Some (Completed None)\<rparr>"
  from recover_finish_interrupted [OF assms(2), of self a sb]
  have n: "fst ?f = None" and q: "quiet self (snd ?f)" by simp_all
  have s1: "step_recovery env self = ?s1"
    using step_recovery_reading [OF assms(1), of env] n by simp
  have s2: "step_recovery env ?s1 = ?s1" by (rule step_recovery_completed) simp
  have aw: "await_recovery env self = (None, ?s1)"
    by (simp add: await_recovery_def s1 s2 Let_def)
  have "quiet self ?s1" using quiet_trans [OF q quiet_ongoing] .
  with aw show ?thesis by simp
qed

lemma maybe_abort_reading_interrupted:
  assumes "ongoing_recovery self = Some (Reading a sb rs)"
    and "\<not> list_all (reader_recovered env) rs \<or> service_stopped env"
  shows "fst (maybe_abort_ongoing_recovery env self) = None
    \<and> quiet self (snd (maybe_abort_ongoing_recovery env self))"
proof -
  let ?s1 = "case revivers self of None \<Rightarrow> self
      | Some rs' \<Rightarrow> if rs' \<noteq> [] then emit self (map ReaderStop rs') else self"
  have q1: "quiet self ?s1"
    by (auto split: option.splits intro: quiet_emit quiet_reader_stops)
  have o1: "ongoing_recovery ?s1 = Some (Reading a sb rs)"
    using assms(1) by (simp split: option.splits)
  from await_recovery_reading_interrupted [OF o1 assms(2)]
  have n: "fst (await_recovery env ?s1) = None" and q2: "quiet ?s1 (snd (await_recovery env ?s1))"
    by simp_all
  have e: "maybe_abort_ongoing_recovery env self
      = (None, (snd (await_recovery env ?s1))\<lparr>ongoing_recovery := None\<rparr>)"
    using assms(1) n
    by (cases "await_recovery env ?s1") (simp add: maybe_abort_ongoing_recovery_def Let_def)
  have "quiet self ((snd (await_recovery env ?s1))\<lparr>ongoing_recovery := None\<rparr>)"
    using quiet_trans [OF q1 quiet_trans [OF q2 quiet_ongoing]] .
  with e show ?thesis by simp
qed

lemma revoke_during_recovery:
  assumes "ongoing_recovery self = Some (Reading a sb rs)"
    and "\<not> list_all (reader_recovered env) rs \<or> service_stopped env"
  shows "fst (on_partitions_revoked env self revoked) = None
    \<and> recovery_completed (snd (on_partitions_revoked env self revoked)) = recovery_completed self
    \<and> standbys (snd (on_partitions_revoked env self revoked)) = []
    \<and> filter completes_recovery (events_since self (snd (on_partitions_revoked env self revoked))) = []"
proof -
  let ?s1 = "snd (maybe_abort_ongoing_recovery env self)"
  let ?s2 = "stop_standbys env ?s1"
  let ?s3 = "emit ?s2 (map (\<lambda>t. TableRevoked t revoked) (table_values ?s2))"
  from maybe_abort_reading_interrupted [OF assms]
  have n: "fst (maybe_abort_ongoing_recovery env self) = None" and q: "quiet self ?s1"
    by simp_all
  have e: "on_partitions_revoked env self revoked = (None, ?s3)"
    using n by (cases "maybe_abort_ongoing_recovery env self")
      (simp add: on_partitions_revoked_def Let_def)
  from q obtain xs where xs: "events ?s1 = events self @ xs" "filter completes_recovery xs = []"
    and rc: "recovery_completed ?s1 = recovery_completed self"
    by (auto simp add: quiet_def)
  from stop_standbys_effect [of env ?s1] obtain ys where
    ys: "events ?s2 = events ?s1 @ ys" "filter completes_recovery ys = []"
    and rc2: "recovery_completed ?s2 = recovery_completed ?s1"
    and sb2: "standbys ?s2 = []"
    by blast
  have ev: "events ?s3 = events self @ (xs @ ys @ map (\<lambda>t. TableRevoked t revoked) (table_values ?s2))"
    by (simp add: xs ys)
  have "filter completes_recovery (events_since self ?s3) = []"
    unfolding events_since_def ev using xs(2) ys(2) by (simp add: quiet_table_revoked)
  then show ?thesis unfolding e using rc rc2 sb2 by simp
qed

lemma offsets_le_eq: "offsets_le a b \<Longrightarrow> table_offsets b' = table_offsets b \<Longrightarrow> offsets_le a b'"
  by (simp add: offsets_le_def)

lemma start_standbys_loop_mono: "offsets_le self (snd (start_standbys_loop self groups))"
proof (induction groups arbitrary: self)
  case Nil
  show ?case by simp
next
  case (Cons g rest)
  obtain t table_tps where g: "g = (t, table_tps)" by (cases g)
  let ?s1 = "sync_persisted_offsets self t table_tps"
  have a: "offsets_le self ?s1" using sync_persisted_offsets_grow by (rule offsets_grow_le)
  show ?case
  proof (cases "channels ?s1 t")
    case None
    with a show ?thesis by (simp add: g Let_def)
  next
    case (Some channel)
    let ?standby = "\<lparr>rd_table = t, rd_channel = channel, rd_tps = table_tps,
        rd_tp_offsets = tp_offsets_of ?s1 table_tps, rd_standby = True\<rparr>"
    let ?s2 = "emit (?s1\<lparr>standbys := AList.update t ?standby (standbys ?s1)\<rparr>) [ReaderStart ?standby]"
    have b: "offsets_le self ?s2" using a by (rule offsets_le_eq) simp
    have c: "offsets_le ?s2 (snd (start_standbys_loop ?s2 rest))" by (rule Cons.IH)
    from offsets_le_trans [OF b c] Some show ?thesis by (simp add: g Let_def)
  qed
qed

lemma start_standbys_mono: "offsets_le self (snd (start_standbys self tps))"
  using start_standbys_loop_mono by (simp add: start_standbys_def)

lemma recover_outcome_mono:
  "offsets_le self (snd (recover_outcome env self assigned standby_tps did_recover))"
proof (cases "did_recover \<and> \<not> service_stopped env")
  case False
  then have "\<not> did_recover \<or> service_stopped env" by blast
  from recover_outcome_interrupted [OF this, of self assigned standby_tps]
  show ?thesis by (simp add: offsets_le_def)
next
  case True
  let ?s2 = "emit (emit self (map CallRecoverCallbacks (table_values self))) [PerformSeek]"
  have a: "offsets_le self ?s2" by (simp add: offsets_le_def)
  have b: "offsets_le ?s2 (snd (start_standbys ?s2 standby_tps))" by (rule start_standbys_mono)
  note ab = offsets_le_trans [OF a b]
  obtain r s3 where st: "start_standbys ?s2 standby_tps = (r, s3)"
    by (cases "start_standbys ?s2 standby_tps")
  with ab have c: "offsets_le self s3" by simp
  show ?thesis
  proof (cases r)
    case (Some e)
    with True st c show ?thesis by (simp add: recover_outcome_def Let_def)
  next
    case None
    have "offsets_le self
        ((emit (on_recovery_completed s3)
            [ResumePartitions (filter (\<lambda>tp. \<not> is_changelog_tp (on_recovery_completed s3) tp) assigned)])
         \<lparr>revivers := None\<rparr>)"
      using c by (rule offsets_le_eq) (simp add: on_recovery_completed_def)
    with True st None show ?thesis by (simp add: recover_outcome_def Let_def)
  qed
qed

lemma recover_finish_mono:
  "offsets_le self (snd (recover_finish env self assigned standby_tps rs))"
proof (cases "finish_revivers env self rs")
  case (Pair did_recover s1)
  have a: "offsets_le self s1" using finish_revivers_mono [of self env rs] Pair by simp
  have b: "offsets_le s1 (snd (recover_outcome env s1 assigned standby_tps did_recover))"
    by (rule recover_outcome_mono)
  from offsets_le_trans [OF a b] Pair show ?thesis by (simp add: recover_finish_def)
qed

lemma recover_start_mono: "offsets_le self (snd (recover_start env self assigned))"
proof (cases "set (assigned_actives env) \<subseteq> set assigned")
  case False
  then show ?thesis by (simp add: recover_start_def Let_def)
next
  case True
  let ?s1 = "on_recovery_started env self"
  let ?s2 = "emit ?s1 (map (\<lambda>t. TableAssigned t assigned) (table_values ?s1))"
  have a: "offsets_le self ?s2" by (simp add: offsets_le_def)
  have b: "offsets_le ?s2 (snd (start_revivers ?s2 (assigned_actives env)))"
    by (rule start_revivers_mono)
  from offsets_le_trans [OF a b] True show ?thesis by (simp add: recover_start_def Let_def)
qed

lemma step_recovery_mono: "offsets_le self (step_recovery env self)"
proof (cases "ongoing_recovery self")
  case None
  then show ?thesis by (simp add: step_recovery_def)
next
  case (Some task)
  show ?thesis
  proof (cases task)
    case (NotStarted assigned)
    obtain res s1 where r: "recover_start env self assigned = (res, s1)"
      by (cases "recover_start env self assigned")
    have "offsets_le self s1" using recover_start_mono [of self env assigned] r by simp
    then have "offsets_le self (s1\<lparr>ongoing_recovery := v\<rparr>)" for v
      by (rule offsets_le_eq) simp
    with Some NotStarted r show ?thesis by (cases res) (simp_all add: step_recovery_def)
  next
    case (Reading assigned standby_tps rs)
    obtain res s1 where r: "recover_finish env self assigned standby_tps rs = (res, s1)"
      by (cases "recover_finish env self assigned standby_tps rs")
    have "offsets_le self s1"
      using recover_finish_mono [of self env assigned standby_tps rs] r by simp
    then have "offsets_le self (s1\<lparr>ongoing_recovery := v\<rparr>)" for v
      by (rule offsets_le_eq) simp
    with Some Reading r show ?thesis by (simp add: step_recovery_def)
  next
    case (Completed r)
    with Some show ?thesis by (simp add: step_recovery_def)
  qed
qed

lemma await_recovery_mono: "offsets_le self (snd (await_recovery env self))"
proof -
  let ?s1 = "step_recovery env (step_recovery env self)"
  have "offsets_le self ?s1"
    using offsets_le_trans [OF step_recovery_mono step_recovery_mono] .
  moreover have "snd (await_recovery env self) = ?s1"
    by (simp add: await_recovery_def Let_def split: option.splits recovery_task.splits)
  ultimately show ?thesis by simp
qed

lemma maybe_abort_mono: "offsets_le self (snd (maybe_abort_ongoing_recovery env self))"
proof (cases "ongoing_recovery self")
  case None
  then show ?thesis by (simp add: maybe_abort_ongoing_recovery_def)
next
  case (Some task)
  let ?s1 = "case revivers self of None \<Rightarrow> self
      | Some rs \<Rightarrow> if rs \<noteq> [] then emit self (map ReaderStop rs) else self"
  have a: "offsets_le self ?s1" by (simp add: offsets_le_def split: option.splits)
  have b: "offsets_le ?s1 (snd (await_recovery env ?s1))" by (rule await_recovery_mono)
  note ab = offsets_le_trans [OF a b]
  then have ab': "offsets_le self ((snd (await_recovery env ?s1))\<lparr>ongoing_recovery := None\<rparr>)"
    by (rule offsets_le_eq) simp
  obtain r s2 where aw: "await_recovery env ?s1 = (r, s2)" by (cases "await_recovery env ?s1")
  show ?thesis
  proof (cases task)
    case (Completed r)
    with Some show ?thesis by (simp add: maybe_abort_ongoing_recovery_def offsets_le_def)
  next
    case (NotStarted assigned)
    with Some aw ab ab' show ?thesis
      by (cases r) (simp_all add: maybe_abort_ongoing_recovery_def Let_def)
  next
    case (Reading assigned standby_tps rs)
    with Some aw ab ab' show ?thesis
      by (cases r) (simp_all add: maybe_abort_ongoing_recovery_def Let_def)
  qed
qed

lemma on_partitions_revoked_mono:
  "offsets_le self (snd (on_partitions_revoked env self revoked))"
proof (cases "maybe_abort_ongoing_recovery env self")
  case (Pair r s1)
  have a: "offsets_le self s1" using maybe_abort_mono [of self env] Pair by simp
  show ?thesis
  proof (cases r)
    case (Some e)
    with Pair a show ?thesis by (simp add: on_partitions_revoked_def)
  next
    case None
    have b: "offsets_le s1 (stop_standbys env s1)" by (rule stop_standbys_mono)
    have "offsets_le self
        (emit (stop_standbys env s1)
           (map (\<lambda>t. TableRevoked t revoked) (table_values (stop_standbys env s1))))"
      using offsets_le_trans [OF a b] by (rule offsets_le_eq) simp
    with Pair None show ?thesis by (simp add: on_partitions_revoked_def Let_def)
  qed
qed

lemma apply_call_mono: "offsets_le self (apply_call self c)"
proof (cases c)
  case (Pair env call)
  show ?thesis
  proof (cases call)
    case (Add t)
    then show ?thesis
      unfolding Pair by (simp add: add_def offsets_le_def split: option.splits)
  next
    case OnStart
    then show ?thesis unfolding Pair by (simp add: on_start_def offsets_le_def)
  next
    case (OnPartitionsAssigned assigned)
    then show ?thesis
      unfolding Pair by (simp add: on_partitions_assigned_def offsets_le_def)
  next
    case RunRecoveryTask
    then show ?thesis unfolding Pair by (simp add: step_recovery_mono)
  next
    case (OnPartitionsRevoked revoked)
    then show ?thesis unfolding Pair by (simp add: on_partitions_revoked_mono)
  qed
qed

text \<open>
  Over any life of the manager no table offset decreases.
\<close>

lemma manager_run_mono: "offsets_le self (manager_run self cs)"
proof (induction cs arbitrary: self)
  case Nil
  show ?case by (simp add: manager_run_def)
next
  case (Cons c cs)
  have "offsets_le (apply_call self c) (manager_run (apply_call self c) cs)" by (rule Cons.IH)
  with apply_call_mono have "offsets_le self (manager_run (apply_call self c) cs)"
    by (rule offsets_le_trans)
  then show ?case by (simp add: manager_run_def)
qed

text \<open>
  Claim C4: for every topic-partition the table offset, read as the manager reads it
  (\<open>_table_offsets.get(tp, -1)\<close>), never decreases over any sequence of calls of the
  manager and turns of its recovery task, nor in a single fold. A fold of a reader's
  offsets leaves it at the maximum of what it was and the offset observed, and does
  nothing at all for an observed \<open>-1\<close> (or any negative offset); a fold of a table's
  persisted offsets leaves it at the maximum of what it was and the persisted offset,
  which for a persisted \<open>-1\<close> is what it was.
\<close>

theorem table_offsets_never_decrease:
  "get_offset (table_offsets self) tp \<le> get_offset (table_offsets (manager_run self cs)) tp
   \<and> get_offset (table_offsets self) tp \<le> get_offset (table_offsets (sync_offsets self offs)) tp
   \<and> get_offset (table_offsets self) tp
       \<le> get_offset (table_offsets (sync_persisted_offsets self t tps)) tp
   \<and> (distinct (map fst offs) \<longrightarrow>
        get_offset (table_offsets (sync_offsets self offs)) tp =
          (case map_of offs tp of
             None \<Rightarrow> get_offset (table_offsets self) tp
           | Some offset \<Rightarrow>
               if 0 \<le> offset then max (get_offset (table_offsets self) tp) offset
               else get_offset (table_offsets self) tp))
   \<and> get_offset (table_offsets (sync_persisted_offsets self t tps)) tp =
        (if tp \<in> set tps
         then (case persisted_offset t tp of
                 None \<Rightarrow> get_offset (table_offsets self) tp
               | Some po \<Rightarrow> max (get_offset (table_offsets self) tp) po)
         else get_offset (table_offsets self) tp)
   \<and> sync_offsets self ((tp, - 1) # offs) = sync_offsets self offs
   \<and> (persisted_offset t tp = Some (- 1) \<and> - 1 \<le> get_offset (table_offsets self) tp \<longrightarrow>
        get_offset (table_offsets (sync_persisted_offsets self t tps)) tp
          = get_offset (table_offsets self) tp)"
proof -
  have run: "get_offset (table_offsets self) tp \<le> get_offset (table_offsets (manager_run self cs)) tp"
    using manager_run_mono [of self cs] by (simp add: offsets_le_def)
  have so: "get_offset (table_offsets self) tp \<le> get_offset (table_offsets (sync_offsets self offs)) tp"
    using sync_offsets_mono [of self offs] by (simp add: offsets_le_def)
  have sp: "get_offset (table_offsets self) tp
      \<le> get_offset (table_offsets (sync_persisted_offsets self t tps)) tp"
    using sync_persisted_offsets_mono [of self t tps] by (simp add: offsets_le_def)
  have ig: "persisted_offset t tp = Some (- 1) \<and> - 1 \<le> get_offset (table_offsets self) tp \<longrightarrow>
        get_offset (table_offsets (sync_persisted_offsets self t tps)) tp
          = get_offset (table_offsets self) tp"
    by (simp add: sync_persisted_offsets_value)
  show ?thesis
    using run so sp ig sync_offsets_value [of offs self tp]
      sync_persisted_offsets_value [of self t tps tp]
    by simp
qed

lemma example_recover_start:
  "fst (recover_start example_env example_manager [TP ''T-log'' 0, TP ''A'' 0]) = Inr [example_reader]"
  by (simp add: recover_start_def on_recovery_started_def update_channels_def start_revivers_def
      create_reviver_def tp_offsets_of_def List.map_filter_def persisted_offset_def
      table_values_def emit_def get_offset_def Let_def
      example_env_def example_manager_def example_table_def example_reader_def
      TableManager_init_def)

lemmas manager_defs =
  manager_run_def add_def on_start_def on_partitions_assigned_def step_recovery_def
  recover_start_def recover_finish_def recover_outcome_def finish_revivers_def
  on_recovery_started_def on_recovery_completed_def update_channels_def start_revivers_def
  start_standbys_def group_table_tps_def is_changelog_tp_def
  create_reviver_def tp_offsets_of_def List.map_filter_def persisted_offset_def
  table_values_def emit_def get_offset_def Let_def

lemmas example_defs =
  example_env_def example_manager_def example_table_def example_reader_def TableManager_init_def

text \<open>
  Scenario S4 runs as the specification says: the table offset of the changelog
  partition ends at 150, the recover callbacks are called, the consumer is resumed on
  the partition that is no changelog, and the recovery-completed latch is set.
\<close>

lemma example_run:
  "get_offset (table_offsets (manager_run TableManager_init example_calls)) (TP ''T-log'' 0) = 150
   \<and> recovery_completed (manager_run TableManager_init example_calls)
   \<and> events (manager_run TableManager_init example_calls) =
       [PausePartitions [TP ''T-log'' 0], PausePartitions [TP ''T-log'' 0],
        TableAssigned example_table [TP ''T-log'' 0, TP ''A'' 0],
        ReaderStart example_reader, ReaderStop example_reader,
        CallRecoverCallbacks example_table, PerformSeek, TableMaybeStart example_table,
        ResumePartitions [TP ''A'' 0]]"
  by (simp add: example_calls_def manager_defs example_defs)

text \<open>
  Claim C4 on scenario S4: from no entry (read as \<open>-1\<close>) the table offset of the
  changelog partition goes to 150, in the fold of a reader's offsets and in the whole
  run; a persisted \<open>-1\<close> leaves it at \<open>-1\<close>.
\<close>

theorem table_offsets_never_decrease_witness:
  "distinct (map fst [(TP ''T-log'' 0, 150), (TP ''T-log'' 1, - 1 :: int)])
   \<and> get_offset (table_offsets TableManager_init) (TP ''T-log'' 0) = - 1
   \<and> get_offset (table_offsets
        (sync_offsets TableManager_init [(TP ''T-log'' 0, 150), (TP ''T-log'' 1, - 1)]))
        (TP ''T-log'' 0) = 150
   \<and> persisted_offset (example_table\<lparr>persisted := [(TP ''T-log'' 0, - 1)]\<rparr>) (TP ''T-log'' 0)
       = Some (- 1)
   \<and> get_offset (table_offsets
        (sync_persisted_offsets TableManager_init
           (example_table\<lparr>persisted := [(TP ''T-log'' 0, - 1)]\<rparr>) [TP ''T-log'' 0]))
        (TP ''T-log'' 0) = - 1
   \<and> get_offset (table_offsets (manager_run TableManager_init example_calls)) (TP ''T-log'' 0)
       = 150"
  using table_offsets_never_decrease
    [of TableManager_init "TP ''T-log'' 0" example_calls
        "[(TP ''T-log'' 0, 150), (TP ''T-log'' 1, - 1)]"
        "example_table\<lparr>persisted := [(TP ''T-log'' 0, - 1)]\<rparr>" "[TP ''T-log'' 0]"]
    example_run
  by (simp add: TableManager_init_def get_offset_def persisted_offset_def example_table_def)

text \<open>
  Claim C5: a recovery whose revivers did not all recover, or that finds the manager
  stopped, returns without an exception and completes nothing: the recovery-completed
  latch is as it was, no standby reader is started (the standbys are as they were), and
  among the effects of the cycle there is no call of the recover callbacks, no seek, no
  start of a table and no resuming of partitions. The same holds when the partitions are
  revoked while the recovery waits for its readers: the revocation ends the recovery
  this way, and leaves no standby running.
\<close>

theorem interrupted_recovery_completes_nothing:
  assumes "\<not> list_all (reader_recovered env) table_revivers \<or> service_stopped env"
  shows "(fst (recover_start env self assigned) = Inr table_revivers \<longrightarrow>
            fst (recover env self assigned) = None
          \<and> recovery_completed (snd (recover env self assigned)) = recovery_completed self
          \<and> standbys (snd (recover env self assigned)) = standbys self
          \<and> filter completes_recovery (events_since self (snd (recover env self assigned))) = []
          \<and> revivers (snd (recover env self assigned)) = None)
    \<and> (ongoing_recovery self = Some (Reading assigned standby_tps table_revivers) \<longrightarrow>
            fst (on_partitions_revoked env self revoked) = None
          \<and> recovery_completed (snd (on_partitions_revoked env self revoked))
              = recovery_completed self
          \<and> standbys (snd (on_partitions_revoked env self revoked)) = []
          \<and> filter completes_recovery
               (events_since self (snd (on_partitions_revoked env self revoked))) = [])"
  using interrupted_recovery [OF _ assms] revoke_during_recovery [OF _ assms]
  by blast

text \<open>
  Claim C5 on scenario S5: the reader of the table does not recover; neither the whole
  recovery nor a revocation that arrives while it reads sets the latch or starts a
  standby.
\<close>

theorem interrupted_recovery_completes_nothing_witness:
  "\<not> list_all (reader_recovered example_interrupted) [example_reader]
   \<and> fst (recover_start example_interrupted example_manager [TP ''T-log'' 0, TP ''A'' 0])
       = Inr [example_reader]
   \<and> fst (recover example_interrupted example_manager [TP ''T-log'' 0, TP ''A'' 0]) = None
   \<and> \<not> recovery_completed
         (snd (recover example_interrupted example_manager [TP ''T-log'' 0, TP ''A'' 0]))
   \<and> standbys (snd (recover example_interrupted example_manager [TP ''T-log'' 0, TP ''A'' 0])) = []
   \<and> ongoing_recovery
        (example_manager\<lparr>revivers := Some [example_reader],
           ongoing_recovery := Some (Reading [TP ''T-log'' 0] [] [example_reader])\<rparr>)
       = Some (Reading [TP ''T-log'' 0] [] [example_reader])
   \<and> \<not> recovery_completed
         (snd (on_partitions_revoked example_interrupted
            (example_manager\<lparr>revivers := Some [example_reader],
               ongoing_recovery := Some (Reading [TP ''T-log'' 0] [] [example_reader])\<rparr>)
            [TP ''T-log'' 0]))"
proof -
  have h: "\<not> list_all (reader_recovered example_interrupted) [example_reader]
      \<or> service_stopped example_interrupted"
    by (simp add: example_interrupted_def)
  have st: "fst (recover_start example_interrupted example_manager [TP ''T-log'' 0, TP ''A'' 0])
      = Inr [example_reader]"
    by (simp add: example_interrupted_def manager_defs example_defs)
  from interrupted_recovery_completes_nothing
    [OF h, of example_manager "[TP ''T-log'' 0, TP ''A'' 0]"] st
  have a: "fst (recover example_interrupted example_manager [TP ''T-log'' 0, TP ''A'' 0]) = None
    \<and> \<not> recovery_completed
         (snd (recover example_interrupted example_manager [TP ''T-log'' 0, TP ''A'' 0]))
    \<and> standbys (snd (recover example_interrupted example_manager [TP ''T-log'' 0, TP ''A'' 0])) = []"
    by (simp add: example_manager_def TableManager_init_def)
  from interrupted_recovery_completes_nothing
    [OF h, of "example_manager\<lparr>revivers := Some [example_reader],
           ongoing_recovery := Some (Reading [TP ''T-log'' 0] [] [example_reader])\<rparr>"
       "[TP ''T-log'' 0]" "[]" "[TP ''T-log'' 0]"]
  have b: "\<not> recovery_completed
         (snd (on_partitions_revoked example_interrupted
            (example_manager\<lparr>revivers := Some [example_reader],
               ongoing_recovery := Some (Reading [TP ''T-log'' 0] [] [example_reader])\<rparr>)
            [TP ''T-log'' 0]))"
    by (simp add: example_manager_def TableManager_init_def)
  from h st a b show ?thesis by (simp add: example_interrupted_def)
qed

section \<open>Further properties\<close>

text \<open>
  Extra property X1: on a topic that does not hold both a non-empty list of names and
  a pattern, \<open>derive\<close> without overrides copies every field but three: the replication
  factor is the application's default, and the iterator flag and the declared latch are
  off. Deriving again changes nothing more.
\<close>

theorem derive_without_overrides:
  assumes "\<not> (truthy_topics (topics self) \<and> pattern self \<noteq> None)"
    and "partitions self \<noteq> 0"
  shows "derive self no_overrides
      = Inr (self\<lparr>is_iterator := False,
                  replicas := replication_factor (topic_app self),
                  declared := False\<rparr>)
    \<and> derive (self\<lparr>is_iterator := False,
                  replicas := replication_factor (topic_app self),
                  declared := False\<rparr>) no_overrides
      = Inr (self\<lparr>is_iterator := False,
                  replicas := replication_factor (topic_app self),
                  declared := False\<rparr>)"
proof -
  have tp: "truthy_pattern (map_option PatternCompiled (pattern self)) = (pattern self \<noteq> None)"
    by (cases "pattern self") simp_all
  have rc: "map_option re_compile (map_option PatternCompiled (pattern self)) = pattern self"
    by (cases "pattern self") simp_all
  show ?thesis
    using assms by (auto simp add: topic_defs tp rc)
qed

text \<open>
  Extra property X1 on the topic of scenario S3 built with \<open>replicas=3\<close> as an
  iterator.
\<close>

theorem derive_without_overrides_witness:
  "\<not> (truthy_topics (topics (example_topic\<lparr>replicas := 3, is_iterator := True\<rparr>))
       \<and> pattern (example_topic\<lparr>replicas := 3, is_iterator := True\<rparr>) \<noteq> None)
   \<and> partitions (example_topic\<lparr>replicas := 3, is_iterator := True\<rparr>) \<noteq> 0
   \<and> derive (example_topic\<lparr>replicas := 3, is_iterator := True\<rparr>) no_overrides = Inr example_topic
   \<and> derive example_topic no_overrides = Inr example_topic"
  using derive_without_overrides [of "example_topic\<lparr>replicas := 3, is_iterator := True\<rparr>"]
  by (simp add: example_topic_def example_app_def)

text \<open>
  Popping one entry leaves the entries of every other topic-partition and offset.
\<close>

lemma buffer_at_attachments_for_other:
  "(tp', off') \<noteq> (tp, off) \<Longrightarrow>
     buffer_at (snd (attachments_for self tp off)) tp' off' = buffer_at self tp' off'"
  by (auto simp add: attachments_for_def buffer_at_def inner_dict_def Let_def split: option.splits)

text \<open>
  Extra property X2: \<open>commit(tp, off)\<close> leaves the attachments of every other
  topic-partition and offset in the buffer (scenario S1: after the commit of offset 5
  the message attached to offset 7 is still pending).
\<close>

theorem commit_keeps_other_entries:
  assumes "(tp', off') \<noteq> (tp, off)"
  shows "buffer_at (snd (commit self tp off)) tp' off' = buffer_at self tp' off'"
proof -
  have "buffer_at (snd (commit self tp off)) tp' off'
      = buffer_at (snd (attachments_for self tp off)) tp' off'"
    by (simp add: buffer_at_def commit_pending)
  with assms show ?thesis by (simp add: buffer_at_attachments_for_other)
qed

text \<open>
  Extra property X2 on scenario S1.
\<close>

theorem commit_keeps_other_entries_witness:
  "(TP ''A'' 0, 7) \<noteq> (TP ''A'' 0, 5 :: int)
   \<and> buffer_at (snd (commit example_buffer (TP ''A'' 0) 5)) (TP ''A'' 0) 7 = Some [example_fm_b]"
  using commit_keeps_other_entries [of "TP ''A'' 0" 7 "TP ''A'' 0" 5 example_buffer]
    example_buffer_eval
  by simp

text \<open>
  Extra property X3: scenario S4. With offset 100 persisted and the reader at 150, a
  recovery that is not interrupted leaves the table offset at 150, stops its reviver,
  calls the recover callbacks, seeks, starts the table, resumes the partition that is no
  changelog, sets the recovery-completed latch and clears the reviver list.
\<close>

theorem recovery_scenario_completes:
  "get_offset (table_offsets (manager_run TableManager_init example_calls)) (TP ''T-log'' 0) = 150
   \<and> recovery_completed (manager_run TableManager_init example_calls)
   \<and> revivers (manager_run TableManager_init example_calls) = None
   \<and> drop 3 (events (manager_run TableManager_init example_calls)) =
       [ReaderStart example_reader, ReaderStop example_reader,
        CallRecoverCallbacks example_table, PerformSeek, TableMaybeStart example_table,
        ResumePartitions [TP ''A'' 0]]"
proof -
  have "revivers (manager_run TableManager_init example_calls) = None"
    by (simp add: example_calls_def manager_defs example_defs)
  with example_run show ?thesis by simp
qed

end
